theory Spec2Isabelle
  imports Complex_Main "HOL-Library.Word"
begin

section \<open>PCM16 chunks and their decoding\<close>

text \<open>
  Source: \<^verbatim>\<open>src/lib/audio-streamer.ts\<close>, \<open>AudioStreamer.addPCM16\<close>, lines 161-171.
  A \<open>Uint8Array\<close> is a view of \<open>byteLength\<close> bytes at \<open>byteOffset\<close> into an underlying
  \<open>ArrayBuffer\<close>; for a \<open>Uint8Array\<close> the element count \<open>length\<close> and \<open>byteLength\<close>
  coincide. Samples are rationals: \<open>int16 / 32768\<close> is a dyadic fraction with a 16-bit
  numerator, which a \<open>Float32Array\<close> element stores exactly.
\<close>

type_synonym byte = "8 word"
type_synonym sample = rat

record uint8Array =
  buffer :: "byte list"
  byteOffset :: nat
  byteLength :: nat

text \<open>A view lies inside its buffer; \<open>viewBytes\<close> are the bytes it designates.\<close>

definition wellFormed :: "uint8Array \<Rightarrow> bool" where
  "wellFormed chunk = (byteOffset chunk + byteLength chunk \<le> length (buffer chunk))"

definition viewBytes :: "uint8Array \<Rightarrow> byte list" where
  "viewBytes chunk = take (byteLength chunk) (drop (byteOffset chunk) (buffer chunk))"

text \<open>
  \<open>new DataView(chunk.buffer)\<close> spans the whole buffer from offset 0.
  \<open>getInt16(byteOffset, true)\<close> reads two bytes, low byte first, as a two's complement
  value, and throws a \<open>RangeError\<close> when they do not lie inside the buffer.
\<close>

datatype rangeError = RangeError

definition int16le :: "byte \<Rightarrow> byte \<Rightarrow> int" where
  "int16le lo hi = sint (word_cat hi lo :: 16 word)"

definition getInt16 :: "byte list \<Rightarrow> nat \<Rightarrow> rangeError + int" where
  "getInt16 buf off =
     (if off + 2 \<le> length buf then Inr (int16le (buf ! off) (buf ! (off + 1)))
      else Inl RangeError)"

text \<open>Writing a typed array outside its length does nothing.\<close>

definition setIndex :: "sample list \<Rightarrow> nat \<Rightarrow> sample \<Rightarrow> sample list" where
  "setIndex arr i v = (if i < length arr then arr[i := v] else arr)"

text \<open>
  The loop \<open>for (let i = 0; i < chunk.length / 2; i++)\<close>: the bound is a real division, so
  the loop runs while \<open>2 * i < chunk.length\<close>. A \<open>RangeError\<close> is caught inside the loop
  body and the element is left as it was.
\<close>

function decodeLoop :: "uint8Array \<Rightarrow> nat \<Rightarrow> sample list \<Rightarrow> sample list" where
  "decodeLoop chunk i float32Array =
     (if 2 * i < byteLength chunk
      then decodeLoop chunk (i + 1)
             (case getInt16 (buffer chunk) (i * 2) of
                Inr int16 \<Rightarrow> setIndex float32Array i (of_int int16 / 32768)
              | Inl e \<Rightarrow> float32Array)
      else float32Array)"
  by pat_completeness auto
termination
  by (relation "measure (\<lambda>(chunk, i, arr). byteLength chunk - 2 * i)") auto

declare decodeLoop.simps [simp del]

text \<open>
  \<open>new Float32Array(chunk.length / 2)\<close> truncates a fractional length and is filled with
  zeros.
\<close>

definition pcm16ToFloat :: "uint8Array \<Rightarrow> sample list" where
  "pcm16ToFloat chunk = decodeLoop chunk 0 (replicate (byteLength chunk div 2) 0)"

text \<open>
  The decoding the specification describes: each 16-bit little-endian signed sample of a
  byte sequence, divided by 32768.
\<close>

fun decodeLE :: "byte list \<Rightarrow> sample list" where
  "decodeLE (lo # hi # rest) = of_int (int16le lo hi) / 32768 # decodeLE rest"
| "decodeLE _ = []"


section \<open>Double-precision arithmetic\<close>

text \<open>
  JavaScript numbers are IEEE 754 doubles. A finite double is a rational, and the result
  of an addition or a division is the exact result rounded to the nearest double, ties to
  the even significand. \<open>roundDouble\<close> is that rounding of a rational: the exponent \<open>e\<close>
  is the one with \<open>2 ^ e \<le> |x| < 2 ^ (e + 1)\<close>, not below -1022 (below that the doubles
  are subnormal and equally spaced), and the significand has 53 bits, so neighbouring
  doubles at \<open>x\<close> lie \<open>2 ^ (e - 52)\<close> apart. Magnitudes of \<open>2 ^ 1024\<close> and more, which a
  double rounds to infinity, do not occur among times in seconds and are not modelled.
  A decimal literal such as \<open>0.1\<close> denotes \<open>roundDouble (1 / 10)\<close>.
\<close>

function bitLength :: "int \<Rightarrow> int" where
  "bitLength k = (if k \<le> 0 then 0 else 1 + bitLength (k div 2))"
  by pat_completeness auto
termination
  by (relation "measure nat") auto

declare bitLength.simps [simp del]

definition pow2 :: "int \<Rightarrow> rat" where
  "pow2 k = (if 0 \<le> k then 2 ^ nat k else 1 / 2 ^ nat (- k))"

definition exponent :: "rat \<Rightarrow> int" where
  "exponent a =
     (let (p, q) = quotient_of a;
          e = bitLength p - bitLength q
      in if pow2 e \<le> a then e else e - 1)"

definition roundHalfEven :: "rat \<Rightarrow> int" where
  "roundHalfEven m =
     (let n = \<lfloor>m\<rfloor>; r = m - of_int n
      in if r < 1 / 2 then n
         else if 1 / 2 < r then n + 1
         else if even n then n else n + 1)"

definition roundDouble :: "rat \<Rightarrow> rat" where
  "roundDouble x =
     (if x = 0 then 0
      else
        (let a = \<bar>x\<bar>;
             e = max (exponent a) (- 1022);
             ulp = pow2 (e - 52)
         in sgn x * of_int (roundHalfEven (a / ulp)) * ulp))"

definition addDouble :: "rat \<Rightarrow> rat \<Rightarrow> rat" where
  "addDouble a b = roundDouble (a + b)"

section \<open>The playback scheduler (class AudioStreamer)\<close>

text \<open>
  Source: \<^verbatim>\<open>src/lib/audio-streamer.ts\<close>. The record holds the fields of the class
  that the scheduling logic reads or writes, followed by the part of the platform it
  interacts with:
  \<^item> \<open>currentTime\<close> is \<open>context.currentTime\<close>, the device clock, a double;
  \<^item> \<open>started\<close> lists the calls \<open>source.start(startTime)\<close> made so far with the frame
    each source plays; the \<open>i\<close>-th buffer source created by the scheduler is source \<open>i\<close>;
  \<^item> \<open>onended\<close> is the set of sources whose \<open>onended\<close> handler is installed and
    \<open>endedSources\<close> the set of sources that finished playing;
  \<^item> \<open>scheduleCalls\<close> counts the invocations of \<open>scheduleNextBuffer\<close> that wait at
    their first \<open>await\<close>, \<open>timeouts\<close> the pending one-shot timers, and \<open>checkInterval\<close>
    tells whether the polling timer is installed;
  \<^item> \<open>onCompleteCalls\<close> counts the calls of \<open>onComplete\<close>.
  The gain node, the worklets and the iOS silence source do not influence these fields and
  are left out. Every operation is modelled from the point where
  \<open>ensureAudioContextRunning()\<close> has resolved; up to its next \<open>await\<close> it runs without
  interruption on the event loop, and reads one value of the device clock throughout.
  Times are doubles: every sum and quotient the source computes is rounded with
  \<open>roundDouble\<close>.
\<close>

definition bufferSize :: nat where
  "bufferSize = 7680"

definition sampleRate :: rat where
  "sampleRate = 24000"

definition initialBufferTime :: rat where
  "initialBufferTime = roundDouble (1 / 10)"

definition SCHEDULE_AHEAD_TIME :: rat where
  "SCHEDULE_AHEAD_TIME = roundDouble (2 / 10)"

record streamer =
  audioQueue :: "sample list list"
  isPlaying :: bool
  processingBuffer :: "sample list"
  scheduledTime :: rat
  isStreamComplete :: bool
  checkInterval :: bool
  endOfQueueAudioSource :: "nat option"
  currentTime :: rat
  started :: "(rat \<times> sample list) list"
  onended :: "nat set"
  endedSources :: "nat set"
  scheduleCalls :: nat
  timeouts :: nat
  onCompleteCalls :: nat

definition initial :: streamer where
  "initial = \<lparr>audioQueue = [], isPlaying = False, processingBuffer = [],
     scheduledTime = 0, isStreamComplete = False, checkInterval = False,
     endOfQueueAudioSource = None, currentTime = 0, started = [], onended = {},
     endedSources = {}, scheduleCalls = 0, timeouts = 0, onCompleteCalls = 0\<rparr>"

text \<open>Lines 180-184: slice full frames off the accumulation buffer.\<close>

function frameLoop :: "streamer \<Rightarrow> streamer" where
  "frameLoop s =
     (if bufferSize \<le> length (processingBuffer s)
      then frameLoop (s\<lparr>audioQueue := audioQueue s @ [take bufferSize (processingBuffer s)],
                         processingBuffer := drop bufferSize (processingBuffer s)\<rparr>)
      else s)"
  by pat_completeness auto
termination
  by (relation "measure (\<lambda>s. length (processingBuffer s))") (auto simp: bufferSize_def)

declare frameLoop.simps [simp del]

text \<open>
  Lines 161-190. The call \<open>scheduleNextBuffer()\<close> at the end is recorded in
  \<open>scheduleCalls\<close>: its body runs later, as a \<open>ScheduleTick\<close>.
\<close>

definition addPCM16 :: "uint8Array \<Rightarrow> streamer \<Rightarrow> streamer" where
  "addPCM16 chunk s =
     (let float32Array = pcm16ToFloat chunk;
          s1 = frameLoop (s\<lparr>processingBuffer := processingBuffer s @ float32Array\<rparr>)
      in if \<not> isPlaying s1
         then s1\<lparr>isPlaying := True,
                 scheduledTime := addDouble (currentTime s1) initialBufferTime,
                 scheduleCalls := scheduleCalls s1 + 1\<rparr>
         else s1)"

text \<open>
  Lines 193-201 and 212-238, one iteration of the scheduling loop.
  \<open>context.createBuffer(1, length, sampleRate)\<close> throws \<open>NotSupportedError\<close> for a
  length of 0, after the frame has been shifted off the queue; the duration of an
  \<open>AudioBuffer\<close> is its length divided by its sample rate.
\<close>

datatype domException = NotSupportedError

definition duration :: "sample list \<Rightarrow> rat" where
  "duration audioData = roundDouble (of_nat (length audioData) / sampleRate)"

definition loopBody :: "streamer \<Rightarrow> (domException \<times> streamer) + streamer" where
  "loopBody s =
     (let audioData = hd (audioQueue s);
          s1 = s\<lparr>audioQueue := tl (audioQueue s)\<rparr>
      in if audioData = [] then Inl (NotSupportedError, s1)
         else
           (let source = length (started s1);
                s2 = (if audioQueue s1 = []
                      then s1\<lparr>onended :=
                                insert source
                                  (case endOfQueueAudioSource s1 of
                                     None \<Rightarrow> onended s1
                                   | Some old \<Rightarrow> onended s1 - {old}),
                              endOfQueueAudioSource := Some source\<rparr>
                      else s1);
                startTime = max (scheduledTime s2) (currentTime s2)
            in Inr (s2\<lparr>started := started s2 @ [(startTime, audioData)],
                       scheduledTime := addDouble startTime (duration audioData)\<rparr>)))"

text \<open>Lines 208-239, the \<open>while\<close> loop.\<close>

function scheduleLoop :: "streamer \<Rightarrow> (domException \<times> streamer) + streamer" where
  "scheduleLoop s =
     (if audioQueue s \<noteq> []
         \<and> scheduledTime s < addDouble (currentTime s) SCHEDULE_AHEAD_TIME
      then (case loopBody s of
              Inl e \<Rightarrow> Inl e
            | Inr s' \<Rightarrow> scheduleLoop s')
      else Inr s)"
  by pat_completeness auto
termination
  by (relation "measure (\<lambda>s. length (audioQueue s))")
     (auto simp: loopBody_def Let_def split: if_splits)

declare scheduleLoop.simps [simp del]

text \<open>Lines 241-267, after the loop: go idle, install the poll, or set a one-shot timer.\<close>

definition afterLoop :: "streamer \<Rightarrow> streamer" where
  "afterLoop s =
     (if audioQueue s = [] \<and> processingBuffer s = []
      then (if isStreamComplete s
            then s\<lparr>isPlaying := False, checkInterval := False\<rparr>
            else s\<lparr>checkInterval := True\<rparr>)
      else s\<lparr>timeouts := timeouts s + 1\<rparr>)"

definition scheduleNextBuffer :: "streamer \<Rightarrow> (domException \<times> streamer) + streamer" where
  "scheduleNextBuffer s =
     (case scheduleLoop s of
        Inl e \<Rightarrow> Inl e
      | Inr s' \<Rightarrow> Inr (afterLoop s'))"

text \<open>The callbacks of the polling timer (lines 250-256), of the one-shot timer (line 264)
  and of \<open>source.onended\<close> (lines 221-226).\<close>

definition intervalCallback :: "streamer \<Rightarrow> streamer" where
  "intervalCallback s =
     (if audioQueue s \<noteq> [] \<or> bufferSize \<le> length (processingBuffer s)
      then s\<lparr>scheduleCalls := scheduleCalls s + 1\<rparr>
      else s)"

definition timeoutCallback :: "streamer \<Rightarrow> streamer" where
  "timeoutCallback s = s\<lparr>timeouts := timeouts s - 1, scheduleCalls := scheduleCalls s + 1\<rparr>"

definition onendedCallback :: "nat \<Rightarrow> streamer \<Rightarrow> streamer" where
  "onendedCallback source s =
     (if audioQueue s = [] \<and> endOfQueueAudioSource s = Some source
      then s\<lparr>endOfQueueAudioSource := None, onCompleteCalls := onCompleteCalls s + 1\<rparr>
      else s)"

definition sourceEnds :: "nat \<Rightarrow> streamer \<Rightarrow> streamer" where
  "sourceEnds source s =
     (let s1 = s\<lparr>endedSources := insert source (endedSources s)\<rparr>
      in if source \<in> onended s1 then onendedCallback source s1 else s1)"

text \<open>\<open>resume\<close> (lines 288-289), \<open>stop\<close> (lines 293-302) and \<open>complete\<close> (lines 327-338).\<close>

definition resume :: "streamer \<Rightarrow> streamer" where
  "resume s = s\<lparr>isStreamComplete := False,
                 scheduledTime := addDouble (currentTime s) initialBufferTime\<rparr>"

definition stop :: "streamer \<Rightarrow> streamer" where
  "stop s = s\<lparr>isPlaying := False, isStreamComplete := True, audioQueue := [],
               processingBuffer := [], scheduledTime := currentTime s,
               checkInterval := False\<rparr>"

definition complete :: "streamer \<Rightarrow> streamer" where
  "complete s =
     (let s1 = s\<lparr>isStreamComplete := True\<rparr>
      in if processingBuffer s1 \<noteq> []
         then (let s2 = s1\<lparr>audioQueue := audioQueue s1 @ [processingBuffer s1],
                           processingBuffer := []\<rparr>
               in if isPlaying s2 then s2\<lparr>scheduleCalls := scheduleCalls s2 + 1\<rparr> else s2)
         else s1\<lparr>onCompleteCalls := onCompleteCalls s1 + 1\<rparr>)"

text \<open>
  A run of the streamer is a sequence of events, each one uninterrupted piece of code.
  \<open>step\<close> gives \<open>None\<close> for an event that cannot happen in a state: a chunk that is not
  a view of its buffer, a scheduling pass nobody called, a timer that is not pending, a
  source that has not played to its end, or a device clock running backwards
  (\<open>ClockAdvance d\<close> moves the clock to the double nearest to its value plus \<open>d\<close>). An
  exception thrown inside a scheduling pass is not caught by anyone; the streamer goes on
  from the state the pass left.
\<close>

datatype event =
    AddPCM16 uint8Array
  | Complete
  | Stop
  | Resume
  | ScheduleTick
  | TimeoutFires
  | IntervalFires
  | SourceEnded nat
  | ClockAdvance rat

definition outcomeState :: "(domException \<times> streamer) + streamer \<Rightarrow> streamer" where
  "outcomeState r = (case r of Inl (e, s) \<Rightarrow> s | Inr s \<Rightarrow> s)"

fun step :: "event \<Rightarrow> streamer \<Rightarrow> streamer option" where
  "step (AddPCM16 chunk) s = (if wellFormed chunk then Some (addPCM16 chunk s) else None)"
| "step Complete s = Some (complete s)"
| "step Stop s = Some (stop s)"
| "step Resume s = Some (resume s)"
| "step ScheduleTick s =
     (if 0 < scheduleCalls s
      then Some (outcomeState (scheduleNextBuffer (s\<lparr>scheduleCalls := scheduleCalls s - 1\<rparr>)))
      else None)"
| "step TimeoutFires s = (if 0 < timeouts s then Some (timeoutCallback s) else None)"
| "step IntervalFires s = (if checkInterval s then Some (intervalCallback s) else None)"
| "step (SourceEnded i) s =
     (if i < length (started s) \<and> i \<notin> endedSources s
         \<and> fst (started s ! i) + duration (snd (started s ! i)) \<le> currentTime s
      then Some (sourceEnds i s) else None)"
| "step (ClockAdvance d) s =
     (let t = addDouble (currentTime s) d
      in if 0 \<le> d \<and> currentTime s \<le> t then Some (s\<lparr>currentTime := t\<rparr>) else None)"

fun run :: "event list \<Rightarrow> streamer \<Rightarrow> streamer option" where
  "run [] s = Some s"
| "run (e # es) s = (case step e s of None \<Rightarrow> None | Some s' \<Rightarrow> run es s')"

section \<open>The capture pipeline (class AudioRecorder)\<close>

text \<open>
  Source: class \<open>AudioRecorder\<close> (second file of \<^verbatim>\<open>src/hooks/use-live-api.ts\<close>, lines
  179-404). Objects are identified by numbers: a hardware stream by its index in
  \<open>mediaStreams\<close> (all streams that \<open>getUserMedia\<close> has handed out, with the state of
  their tracks), the future created by the \<open>n\<close>-th call of \<open>start\<close> by \<open>n\<close>, audio nodes
  by the order of their creation. \<open>mediaDevices\<close> tells whether
  \<open>navigator.mediaDevices.getUserMedia\<close> exists, \<open>getUserMediaCalls\<close> counts the
  requests made, \<open>emitted\<close> lists the notifications sent with \<open>emit\<close>.
  By the DOM type, \<open>readyState\<close> is \<open>"live"\<close> or \<open>"ended"\<close>; \<open>None\<close> stands for a
  falsy value.
\<close>

datatype mediaStreamTrackState = Live | Ended

record mediaStreamTrack =
  enabled :: bool
  muted :: bool
  readyState :: "mediaStreamTrackState option"

record audioRecorder =
  stream :: "nat option"
  audioContext :: "nat option"
  source :: "nat option"
  recording :: bool
  recordingWorklet :: "nat option"
  vuWorklet :: "nat option"
  starting :: "nat option"
  streamCheckInterval :: bool
  mediaDevices :: bool
  mediaStreams :: "mediaStreamTrack list list"
  getUserMediaCalls :: nat
  promises :: nat
  nodes :: nat
  emitted :: "(string \<times> string) list"

definition newAudioRecorder :: "bool \<Rightarrow> audioRecorder" where
  "newAudioRecorder available =
     \<lparr>stream = None, audioContext = None, source = None, recording = False,
      recordingWorklet = None, vuWorklet = None, starting = None,
      streamCheckInterval = False, mediaDevices = available, mediaStreams = [],
      getUserMediaCalls = 0, promises = 0, nodes = 0, emitted = []\<rparr>"

definition tracksOf :: "audioRecorder \<Rightarrow> nat \<Rightarrow> mediaStreamTrack list" where
  "tracksOf r h = (if h < length (mediaStreams r) then mediaStreams r ! h else [])"

definition stopTracks :: "nat \<Rightarrow> audioRecorder \<Rightarrow> audioRecorder" where
  "stopTracks h r =
     (if h < length (mediaStreams r)
      then r\<lparr>mediaStreams :=
               (mediaStreams r)[h := map (\<lambda>track. track\<lparr>readyState := Some Ended\<rparr>)
                                        (mediaStreams r ! h)]\<rparr>
      else r)"

text \<open>
  \<open>start\<close> (lines 248-359). The executor of the new promise runs at once up to its first
  \<open>await\<close>, which is the \<open>getUserMedia\<close> request; then the promise is stored in
  \<open>starting\<close> and returned. \<open>startGotStream\<close> is the continuation when that request
  yields a stream (line 256), \<open>startResolved\<close> the rest of the executor when every later
  step succeeds (lines 280-349 and 354), \<open>startRejected\<close> the \<open>catch\<close> and \<open>finally\<close>
  blocks (lines 350-355).
\<close>

definition start :: "audioRecorder \<Rightarrow> string + (nat \<times> audioRecorder)" where
  "start r =
     (if \<not> mediaDevices r then Inl ''Could not request user media''
      else
        (let promise = promises r;
             r1 = r\<lparr>promises := promises r + 1,
                     getUserMediaCalls := getUserMediaCalls r + 1\<rparr>;
             r2 = r1\<lparr>starting := Some promise\<rparr>
         in Inr (promise, r2)))"

definition startGotStream :: "mediaStreamTrack list \<Rightarrow> audioRecorder \<Rightarrow> audioRecorder" where
  "startGotStream tracks r =
     r\<lparr>stream := Some (length (mediaStreams r)),
       mediaStreams := mediaStreams r @ [tracks]\<rparr>"

definition startResolved :: "audioRecorder \<Rightarrow> audioRecorder" where
  "startResolved r =
     (let r1 = r\<lparr>audioContext := Some (nodes r),
                   source := Some (nodes r + 1),
                   recordingWorklet := Some (nodes r + 2),
                   vuWorklet := Some (nodes r + 3),
                   nodes := nodes r + 4,
                   recording := True,
                   streamCheckInterval := True\<rparr>
      in r1\<lparr>starting := None\<rparr>)"

definition startRejected :: "audioRecorder \<Rightarrow> audioRecorder" where
  "startRejected r = r\<lparr>starting := None\<rparr>"

text \<open>
  \<open>restartStream\<close> (lines 212-246): the \<open>try\<close> block stops the tracks of the current
  stream and requests a new one; the outcome of the request is a parameter (\<open>Inl\<close> a
  rejection, \<open>Inr\<close> the tracks of the new stream). \<open>restartBody\<close> is the \<open>try\<close> block,
  \<open>restartStream\<close> adds the \<open>catch\<close>; its result is \<open>Inl\<close> when an exception leaves the
  method. The request is counted on a platform where \<open>navigator.mediaDevices\<close> exists,
  which \<open>start\<close> has checked before a stream can be there to restart.
\<close>

definition restartRequest :: "audioRecorder \<Rightarrow> audioRecorder" where
  "restartRequest r =
     (let r1 = (case stream r of Some h \<Rightarrow> stopTracks h r | None \<Rightarrow> r)
      in r1\<lparr>getUserMediaCalls := getUserMediaCalls r1 + 1\<rparr>)"

definition restartReconnect :: "mediaStreamTrack list \<Rightarrow> audioRecorder \<Rightarrow> audioRecorder" where
  "restartReconnect tracks r =
     (let r1 = r\<lparr>stream := Some (length (mediaStreams r)),
                   mediaStreams := mediaStreams r @ [tracks]\<rparr>
      in if audioContext r1 \<noteq> None \<and> source r1 \<noteq> None
         then r1\<lparr>source := Some (nodes r1), nodes := nodes r1 + 1\<rparr>
         else r1)"

definition restartBody ::
  "string + mediaStreamTrack list \<Rightarrow> audioRecorder \<Rightarrow> (string \<times> audioRecorder) + audioRecorder"
where
  "restartBody getUserMedia r =
     (let r1 = restartRequest r
      in case getUserMedia of
           Inl error \<Rightarrow> Inl (error, r1)
         | Inr tracks \<Rightarrow> Inr (restartReconnect tracks r1))"

definition restartStream ::
  "string + mediaStreamTrack list \<Rightarrow> audioRecorder \<Rightarrow> string + audioRecorder"
where
  "restartStream getUserMedia r =
     (case restartBody getUserMedia r of
        Inl (error, r1) \<Rightarrow> Inr (r1\<lparr>emitted := emitted r1 @ [(''error'', error)]\<rparr>)
      | Inr r2 \<Rightarrow> Inr r2)"

text \<open>
  \<open>checkStreamHealth\<close> (lines 194-210). The loop returns the tracks it has inspected and
  the number of calls of \<open>restartStream\<close> it has made, with the recorder afterwards.
\<close>

definition invalidState :: "mediaStreamTrack \<Rightarrow> bool" where
  "invalidState track =
     (\<not> enabled track \<or> muted track \<or> readyState track = None
      \<or> readyState track = Some Ended)"

fun healthLoop ::
  "string + mediaStreamTrack list \<Rightarrow> mediaStreamTrack list \<Rightarrow>
   mediaStreamTrack list \<times> nat \<times> audioRecorder \<Rightarrow>
   string + (mediaStreamTrack list \<times> nat \<times> audioRecorder)"
where
  "healthLoop getUserMedia [] (inspected, restarts, r) = Inr (inspected, restarts, r)"
| "healthLoop getUserMedia (track # tracks) (inspected, restarts, r) =
     (if invalidState track
      then (case restartStream getUserMedia r of
              Inl error \<Rightarrow> Inl error
            | Inr r' \<Rightarrow> Inr (inspected @ [track], restarts + 1, r'))
      else healthLoop getUserMedia tracks (inspected @ [track], restarts, r))"

definition checkStreamHealth ::
  "string + mediaStreamTrack list \<Rightarrow> audioRecorder \<Rightarrow>
   string + (mediaStreamTrack list \<times> nat \<times> audioRecorder)"
where
  "checkStreamHealth getUserMedia r =
     (case stream r of
        None \<Rightarrow> Inr ([], 0, r)
      | Some h \<Rightarrow> healthLoop getUserMedia (tracksOf r h) ([], 0, r))"

section \<open>Observations used in the statements\<close>

text \<open>
  \<open>sampleAt buf i\<close> is the \<open>i\<close>-th sample of a buffer. \<open>framesPushed\<close> are the frames that
  have been pushed onto the playback queue and not dropped by \<open>stop\<close>: those handed to
  the device, in the order of their start, then those still queued. \<open>allSamples\<close> adds
  the accumulation buffer.
\<close>

definition sampleAt :: "byte list \<Rightarrow> nat \<Rightarrow> sample" where
  "sampleAt buf i = of_int (int16le (buf ! (2 * i)) (buf ! (2 * i + 1))) / 32768"

definition framesPushed :: "streamer \<Rightarrow> sample list list" where
  "framesPushed s = map snd (started s) @ audioQueue s"

definition allSamples :: "streamer \<Rightarrow> sample list" where
  "allSamples s = concat (framesPushed s) @ processingBuffer s"

text \<open>
  The chunks a run passes to \<open>addPCM16\<close>, and their bytes in order of arrival.
  \<open>silence n\<close> is a chunk of \<open>n\<close> zero bytes that owns its buffer, as
  \<open>new Uint8Array(data)\<close> makes it.
\<close>

fun ingested :: "event list \<Rightarrow> uint8Array list" where
  "ingested [] = []"
| "ingested (AddPCM16 chunk # es) = chunk # ingested es"
| "ingested (e # es) = ingested es"

definition totalBytes :: "event list \<Rightarrow> byte list" where
  "totalBytes evs = concat (map viewBytes (ingested evs))"

definition silence :: "nat \<Rightarrow> uint8Array" where
  "silence n = \<lparr>buffer = replicate n 0, byteOffset = 0, byteLength = n\<rparr>"

text \<open>
  The schedule as the specification describes it, for a scheduling pass that starts the
  frames \<open>fs\<close> at device time \<open>now\<close> with \<open>scheduledTime = t\<close>: each frame starts at the
  later of the schedule and the clock, and the schedule moves to that start time plus the
  frame's duration. \<open>startTimes\<close> are the start times, \<open>scheduleEnd\<close> is the schedule
  after the last frame, \<open>onTime\<close> says that the clock had not passed the schedule at any
  of the starts. \<open>addTimes n d t\<close> adds \<open>d\<close> to \<open>t\<close>, \<open>n\<close> times over.
\<close>

fun startTimes :: "rat \<Rightarrow> rat \<Rightarrow> sample list list \<Rightarrow> rat list" where
  "startTimes now t [] = []"
| "startTimes now t (f # fs) =
     max t now # startTimes now (addDouble (max t now) (duration f)) fs"

fun scheduleEnd :: "rat \<Rightarrow> rat \<Rightarrow> sample list list \<Rightarrow> rat" where
  "scheduleEnd now t [] = t"
| "scheduleEnd now t (f # fs) = scheduleEnd now (addDouble (max t now) (duration f)) fs"

fun onTime :: "rat \<Rightarrow> rat \<Rightarrow> sample list list \<Rightarrow> bool" where
  "onTime now t [] = True"
| "onTime now t (f # fs) = (now \<le> t \<and> onTime now (addDouble t (duration f)) fs)"

fun addTimes :: "nat \<Rightarrow> rat \<Rightarrow> rat \<Rightarrow> rat" where
  "addTimes 0 d t = t"
| "addTimes (Suc n) d t = addTimes n d (addDouble t d)"

text \<open>
  The sources started between two states of a run. An event keeps the schedule when it
  does not set \<open>scheduledTime\<close> from the clock: \<open>stop\<close> and \<open>resume\<close> do, and so does
  \<open>addPCM16\<close> when it finds playback idle. \<open>scheduleKept\<close> and \<open>startsOnTime\<close> follow a
  run: every event keeps the schedule; every scheduling pass starts its frames on time.
\<close>

definition startedSince :: "streamer \<Rightarrow> streamer \<Rightarrow> (rat \<times> sample list) list" where
  "startedSince s s' = drop (length (started s)) (started s')"

fun keepsSchedule :: "event \<Rightarrow> streamer \<Rightarrow> bool" where
  "keepsSchedule (AddPCM16 chunk) s = isPlaying s"
| "keepsSchedule Stop s = False"
| "keepsSchedule Resume s = False"
| "keepsSchedule e s = True"

fun scheduleKept :: "event list \<Rightarrow> streamer \<Rightarrow> bool" where
  "scheduleKept [] s = True"
| "scheduleKept (e # es) s =
     (keepsSchedule e s
      \<and> (case step e s of None \<Rightarrow> True | Some s' \<Rightarrow> scheduleKept es s'))"

fun startsOnTime :: "event list \<Rightarrow> streamer \<Rightarrow> bool" where
  "startsOnTime [] s = True"
| "startsOnTime (e # es) s =
     (case step e s of
        None \<Rightarrow> True
      | Some s' \<Rightarrow>
          (e = ScheduleTick \<longrightarrow>
             onTime (currentTime s) (scheduledTime s) (map snd (startedSince s s')))
          \<and> startsOnTime es s')"

text \<open>Example tracks, and a recorder that is recording from one stream.\<close>

definition liveTrack :: mediaStreamTrack where
  "liveTrack = \<lparr>enabled = True, muted = False, readyState = Some Live\<rparr>"

definition mutedTrack :: mediaStreamTrack where
  "mutedTrack = \<lparr>enabled = True, muted = True, readyState = Some Live\<rparr>"

definition endedTrack :: mediaStreamTrack where
  "endedTrack = \<lparr>enabled = True, muted = False, readyState = Some Ended\<rparr>"

definition recordingExample :: "mediaStreamTrack list \<Rightarrow> audioRecorder" where
  "recordingExample tracks =
     \<lparr>stream = Some 0, audioContext = Some 0, source = Some 1, recording = True,
      recordingWorklet = Some 2, vuWorklet = Some 3, starting = None,
      streamCheckInterval = True, mediaDevices = True, mediaStreams = [tracks],
      getUserMediaCalls = 1, promises = 1, nodes = 4, emitted = []\<rparr>"

section \<open>Double-precision lemmas\<close>

text \<open>
  The exponent chosen by \<open>exponent\<close> is the binary order of magnitude, and \<open>roundDouble x\<close>
  is a multiple of the spacing of the doubles at \<open>x\<close> that lies within half that spacing
  of \<open>x\<close>.
\<close>

lemma bitLength_nonneg: "0 \<le> bitLength k"
proof (induction k rule: bitLength.induct)
  case (1 k)
  then show ?case by (subst bitLength.simps) simp
qed

lemma bitLength_pos: "0 < k \<Longrightarrow> 1 \<le> bitLength k"
  using bitLength_nonneg[of "k div 2"] by (subst bitLength.simps) simp

lemma bitLength_bounds:
  "0 < k \<Longrightarrow> 2 ^ nat (bitLength k - 1) \<le> k \<and> k < 2 ^ nat (bitLength k)"
proof (induction k rule: bitLength.induct)
  case (1 k)
  have b: "bitLength k = 1 + bitLength (k div 2)"
    using "1.prems" by (subst bitLength.simps) simp
  show ?case
  proof (cases "k = 1")
    case True
    have "bitLength (1 div 2) = 0" by (subst bitLength.simps) simp
    then have "bitLength 1 = 1" by (subst bitLength.simps) simp
    with True show ?thesis by simp
  next
    case False
    with "1.prems" have h: "0 < k div 2" by simp
    then have "bitLength (k div 2) = 1 + bitLength (k div 2 div 2)"
      by (subst bitLength.simps) simp
    then have nonneg: "0 \<le> bitLength (k div 2) - 1"
      using bitLength_nonneg[of "k div 2 div 2"] by simp
    from "1.IH" "1.prems" h
    have ih: "2 ^ nat (bitLength (k div 2) - 1) \<le> k div 2"
      "k div 2 < 2 ^ nat (bitLength (k div 2))"
      by simp_all
    have pl: "nat (bitLength (k div 2)) = Suc (nat (bitLength (k div 2) - 1))"
      using nonneg by simp
    have "2 * 2 ^ nat (bitLength (k div 2) - 1) \<le> k"
      using ih(1) by linarith
    moreover have "k < 2 * 2 ^ nat (bitLength (k div 2))"
      using ih(2) by linarith
    ultimately show ?thesis
      unfolding b using pl nonneg by (simp add: nat_add_distrib)
  qed
qed

lemma pow2_pos: "0 < pow2 k"
  by (simp add: pow2_def)

lemma pow2_add: "pow2 (i + j) = pow2 i * pow2 j"
proof -
  have "pow2 k = 2 powi k" for k
    by (simp add: pow2_def power_int_def field_simps)
  then show ?thesis by (simp add: power_int_add)
qed

lemma pow2_nat: "pow2 (int n) = 2 ^ n"
  by (simp add: pow2_def)

lemma pow2_mono: "i \<le> j \<Longrightarrow> pow2 i \<le> pow2 j"
proof -
  assume "i \<le> j"
  then obtain n where j: "j = i + int n" by (metis zle_iff_zadd)
  have "(1::rat) \<le> 2 ^ n" by simp
  then show ?thesis
    unfolding j pow2_add pow2_nat using pow2_pos[of i] by (simp add: mult_le_cancel_left1)
qed

lemma exponent_bounds:
  assumes "0 < a"
  shows "pow2 (exponent a) \<le> a \<and> a < pow2 (exponent a + 1)"
proof -
  obtain p q where pq: "quotient_of a = (p, q)" by (cases "quotient_of a")
  then have q: "0 < q" by (rule quotient_of_denom_pos)
  have a: "a = of_int p / of_int q"
    using pq by (rule quotient_of_div)
  with assms q have p: "0 < p"
    by (simp add: zero_less_divide_iff)
  let ?bp = "bitLength p" and ?bq = "bitLength q"
  note bp = bitLength_bounds[OF p] and bq = bitLength_bounds[OF q]
  have bp1: "1 \<le> ?bp" and bq1: "1 \<le> ?bq"
    using p q by (simp_all add: bitLength_pos)
  have P: "pow2 (?bp - 1) \<le> of_int p" "of_int p < pow2 ?bp"
  proof -
    have "(of_int (2 ^ nat (?bp - 1)) :: rat) \<le> of_int p"
      using bp by (simp only: of_int_le_iff)
    then show "pow2 (?bp - 1) \<le> of_int p"
      using bp1 by (simp add: pow2_def)
    have "(of_int p :: rat) < of_int (2 ^ nat ?bp)"
      using bp by (simp only: of_int_less_iff)
    then show "of_int p < pow2 ?bp"
      using bp1 by (simp add: pow2_def)
  qed
  have Q: "pow2 (?bq - 1) \<le> of_int q" "of_int q < pow2 ?bq"
  proof -
    have "(of_int (2 ^ nat (?bq - 1)) :: rat) \<le> of_int q"
      using bq by (simp only: of_int_le_iff)
    then show "pow2 (?bq - 1) \<le> of_int q"
      using bq1 by (simp add: pow2_def)
    have "(of_int q :: rat) < of_int (2 ^ nat ?bq)"
      using bq by (simp only: of_int_less_iff)
    then show "of_int q < pow2 ?bq"
      using bq1 by (simp add: pow2_def)
  qed
  have qpos: "(0::rat) < of_int q" using q by simp
  have lower: "pow2 (?bp - ?bq - 1) \<le> a"
  proof -
    have "pow2 (?bp - ?bq - 1) * of_int q \<le> pow2 (?bp - ?bq - 1) * pow2 ?bq"
      using Q(2) pow2_pos[of "?bp - ?bq - 1"] by (simp add: mult_le_cancel_left_pos)
    also have "\<dots> = pow2 (?bp - 1)"
      by (simp add: pow2_add[symmetric])
    also have "\<dots> \<le> of_int p" by (rule P(1))
    finally show ?thesis
      unfolding a using qpos by (simp add: pos_le_divide_eq)
  qed
  have upper: "a < pow2 (?bp - ?bq + 1)"
  proof -
    have "of_int p < pow2 ?bp" by (rule P(2))
    also have "\<dots> = pow2 (?bp - ?bq + 1) * pow2 (?bq - 1)"
      by (simp add: pow2_add[symmetric])
    also have "\<dots> \<le> pow2 (?bp - ?bq + 1) * of_int q"
      using Q(1) pow2_pos[of "?bp - ?bq + 1"] by (simp add: mult_le_cancel_left_pos)
    finally show ?thesis
      unfolding a using qpos by (simp add: pos_divide_less_eq)
  qed
  show ?thesis
  proof (cases "pow2 (?bp - ?bq) \<le> a")
    case True
    then have "exponent a = ?bp - ?bq" by (simp add: exponent_def pq)
    with True upper show ?thesis by simp
  next
    case False
    then have "exponent a = ?bp - ?bq - 1" by (simp add: exponent_def pq)
    with False lower show ?thesis by simp
  qed
qed

lemma roundHalfEven_near: "\<bar>of_int (roundHalfEven m) - m\<bar> \<le> 1 / 2"
proof -
  have "of_int \<lfloor>m\<rfloor> \<le> m" and "m < of_int \<lfloor>m\<rfloor> + 1" by linarith+
  then show ?thesis
    by (auto simp: roundHalfEven_def Let_def abs_le_iff)
qed

lemma roundDouble_near:
  assumes "x \<noteq> 0"
  shows "\<bar>roundDouble x - x\<bar> \<le> pow2 (max (exponent \<bar>x\<bar>) (- 1022) - 52) / 2"
proof -
  let ?ulp = "pow2 (max (exponent \<bar>x\<bar>) (- 1022) - 52)"
  let ?n = "roundHalfEven (\<bar>x\<bar> / ?ulp)"
  have u: "0 < ?ulp" by (rule pow2_pos)
  have r: "roundDouble x = sgn x * of_int ?n * ?ulp"
    using assms by (simp add: roundDouble_def Let_def)
  have "(of_int ?n - \<bar>x\<bar> / ?ulp) * ?ulp = of_int ?n * ?ulp - \<bar>x\<bar>"
    using u by (simp add: left_diff_distrib)
  then have "sgn x * ((of_int ?n - \<bar>x\<bar> / ?ulp) * ?ulp)
               = sgn x * of_int ?n * ?ulp - sgn x * \<bar>x\<bar>"
    by (simp only: right_diff_distrib mult.assoc)
  also have "\<dots> = roundDouble x - x"
    by (simp only: r sgn_mult_abs)
  finally have "roundDouble x - x = sgn x * ((of_int ?n - \<bar>x\<bar> / ?ulp) * ?ulp)"
    by (rule sym)
  then have "\<bar>roundDouble x - x\<bar> = \<bar>of_int ?n - \<bar>x\<bar> / ?ulp\<bar> * ?ulp"
    using assms u by (simp add: abs_mult abs_sgn_eq)
  also have "\<dots> \<le> (1 / 2) * ?ulp"
    using roundHalfEven_near[of "\<bar>x\<bar> / ?ulp"] u by (intro mult_right_mono) simp_all
  finally show ?thesis by simp
qed

section \<open>Decoding lemmas\<close>


lemma setIndex_length: "length (setIndex arr i v) = length arr"
  by (simp add: setIndex_def)

lemma decodeLoop_closed:
  assumes "wellFormed chunk" and "length arr = byteLength chunk div 2"
  shows "decodeLoop chunk i arr =
           take i arr @ map (sampleAt (buffer chunk)) [i ..< byteLength chunk div 2]"
  using assms
proof (induction chunk i arr rule: decodeLoop.induct)
  case (1 chunk i arr)
  let ?n = "byteLength chunk div 2"
  show ?case
  proof (cases "2 * i < byteLength chunk")
    case False
    then have "?n \<le> i" by simp
    with False "1.prems" show ?thesis
      by (subst decodeLoop.simps) simp
  next
    case True
    show ?thesis
    proof (cases "i < ?n")
      case inside: True
      then have fits: "i * 2 + 2 \<le> length (buffer chunk)"
        using "1.prems"(1) by (simp add: wellFormed_def)
      let ?arr' = "setIndex arr i (sampleAt (buffer chunk) i)"
      have g: "getInt16 (buffer chunk) (i * 2)
                 = Inr (int16le (buffer chunk ! (2 * i)) (buffer chunk ! (2 * i + 1)))"
        using fits by (simp add: getInt16_def mult.commute)
      have next_arr: "(case getInt16 (buffer chunk) (i * 2) of
                Inr int16 \<Rightarrow> setIndex arr i (of_int int16 / 32768)
              | Inl e \<Rightarrow> arr) = ?arr'"
        by (simp add: g sampleAt_def)
      have len': "length ?arr' = ?n"
        using "1.prems"(2) by (simp add: setIndex_length)
      have ih: "decodeLoop chunk (i + 1) ?arr'
                  = take (i + 1) ?arr' @ map (sampleAt (buffer chunk)) [i + 1 ..< ?n]"
        using "1.IH"[OF True] "1.prems"(1) len' next_arr by simp
      have tk: "take (i + 1) ?arr' = take i arr @ [sampleAt (buffer chunk) i]"
        using inside "1.prems"(2)
        by (simp add: setIndex_def take_Suc_conv_app_nth)
      have up: "[i ..< ?n] = i # [i + 1 ..< ?n]"
        using inside by (simp add: upt_conv_Cons)
      have unfold: "decodeLoop chunk i arr = decodeLoop chunk (i + 1) ?arr'"
        using True next_arr by (subst decodeLoop.simps) simp
      show ?thesis unfolding unfold ih tk up by simp
    next
      case outside: False
      have next_arr: "(case getInt16 (buffer chunk) (i * 2) of
                Inr int16 \<Rightarrow> setIndex arr i (of_int int16 / 32768)
              | Inl e \<Rightarrow> arr) = arr"
        using outside "1.prems"(2) by (simp add: setIndex_def split: sum.splits)
      have ih: "decodeLoop chunk (i + 1) arr
                  = take (i + 1) arr @ map (sampleAt (buffer chunk)) [i + 1 ..< ?n]"
        using "1.IH"[OF True] "1.prems" next_arr by simp
      have unfold: "decodeLoop chunk i arr = decodeLoop chunk (i + 1) arr"
        using True next_arr by (subst decodeLoop.simps) simp
      show ?thesis unfolding unfold ih using outside "1.prems"(2) by simp
    qed
  qed
qed

lemma pcm16ToFloat_closed:
  "wellFormed chunk \<Longrightarrow>
   pcm16ToFloat chunk = map (sampleAt (buffer chunk)) [0 ..< byteLength chunk div 2]"
  by (simp add: pcm16ToFloat_def decodeLoop_closed)

lemma sampleAt_Cons2: "sampleAt (lo # hi # rest) (Suc i) = sampleAt rest i"
  by (simp add: sampleAt_def)

lemma decodeLE_closed: "decodeLE bs = map (sampleAt bs) [0 ..< length bs div 2]"
proof (induction bs rule: decodeLE.induct)
  case (1 lo hi rest)
  have "decodeLE (lo # hi # rest)
          = sampleAt (lo # hi # rest) 0 # map (sampleAt rest) [0 ..< length rest div 2]"
    using 1 by (simp add: sampleAt_def)
  also have "\<dots> = map (sampleAt (lo # hi # rest)) [0 ..< Suc (length rest div 2)]"
    by (simp only: map_upt_Suc sampleAt_Cons2)
  also have "Suc (length rest div 2) = length (lo # hi # rest) div 2"
    by simp
  finally show ?case .
qed simp_all

lemma pcm16ToFloat_decodeLE:
  assumes "wellFormed chunk"
  shows "pcm16ToFloat chunk = decodeLE (take (byteLength chunk) (buffer chunk))"
proof -
  have le: "byteLength chunk \<le> length (buffer chunk)"
    using assms by (simp add: wellFormed_def)
  have "map (sampleAt (buffer chunk)) [0 ..< byteLength chunk div 2]
          = map (sampleAt (take (byteLength chunk) (buffer chunk))) [0 ..< byteLength chunk div 2]"
    by (rule map_cong) (auto simp: sampleAt_def)
  then show ?thesis
    using le by (simp add: pcm16ToFloat_closed[OF assms] decodeLE_closed min_absorb2)
qed

lemma viewBytes_offset0: "byteOffset chunk = 0 \<Longrightarrow> viewBytes chunk = take (byteLength chunk) (buffer chunk)"
  by (simp add: viewBytes_def)

lemma length_decodeLE: "length (decodeLE bs) = length bs div 2"
  by (simp add: decodeLE_closed)

lemma decodeLE_append:
  "even (length xs) \<Longrightarrow> decodeLE (xs @ ys) = decodeLE xs @ decodeLE ys"
  by (induction xs rule: decodeLE.induct) simp_all

lemma int16le_range: "- 32768 \<le> int16le lo hi \<and> int16le lo hi < 32768"
  using sint_ge[of "word_cat hi lo :: 16 word"] sint_lt[of "word_cat hi lo :: 16 word"]
  by (simp add: int16le_def)

lemma decodeLE_range: "x \<in> set (decodeLE bs) \<Longrightarrow> - 1 \<le> x \<and> x < 1"
proof (induction bs rule: decodeLE.induct)
  case (1 lo hi rest)
  have "- 32768 \<le> (of_int (int16le lo hi) :: rat) \<and> (of_int (int16le lo hi) :: rat) < 32768"
    using int16le_range[of lo hi]
    by (metis of_int_le_iff of_int_less_iff of_int_numeral of_int_minus)
  then have "- 1 \<le> (of_int (int16le lo hi) :: rat) / 32768
           \<and> (of_int (int16le lo hi) :: rat) / 32768 < 1"
    by (simp add: field_simps)
  with 1 show ?case by auto
qed simp_all


section \<open>Framing lemmas\<close>



lemma bufferSize_pos: "0 < bufferSize"
  by (simp add: bufferSize_def)

lemma frameLoop_small: "length (processingBuffer s) < bufferSize \<Longrightarrow> frameLoop s = s"
  by (subst frameLoop.simps) simp

lemma frameLoop_unfold:
  "bufferSize \<le> length (processingBuffer s) \<Longrightarrow>
   frameLoop s = frameLoop (s\<lparr>audioQueue := audioQueue s @ [take bufferSize (processingBuffer s)],
                               processingBuffer := drop bufferSize (processingBuffer s)\<rparr>)"
  by (subst frameLoop.simps) simp

lemma frameLoop_pb_lt: "length (processingBuffer (frameLoop s)) < bufferSize"
proof (induction s rule: frameLoop.induct)
  case (1 s)
  show ?case
  proof (cases "bufferSize \<le> length (processingBuffer s)")
    case True
    then show ?thesis using 1 by (simp add: frameLoop_unfold)
  next
    case False
    then show ?thesis by (simp add: frameLoop_small)
  qed
qed

lemma frameLoop_others:
  "isPlaying (frameLoop s) = isPlaying s \<and> scheduledTime (frameLoop s) = scheduledTime s
   \<and> isStreamComplete (frameLoop s) = isStreamComplete s
   \<and> checkInterval (frameLoop s) = checkInterval s
   \<and> endOfQueueAudioSource (frameLoop s) = endOfQueueAudioSource s
   \<and> currentTime (frameLoop s) = currentTime s \<and> started (frameLoop s) = started s
   \<and> onended (frameLoop s) = onended s \<and> endedSources (frameLoop s) = endedSources s
   \<and> scheduleCalls (frameLoop s) = scheduleCalls s \<and> timeouts (frameLoop s) = timeouts s
   \<and> onCompleteCalls (frameLoop s) = onCompleteCalls s"
proof (induction s rule: frameLoop.induct)
  case (1 s)
  show ?case
  proof (cases "bufferSize \<le> length (processingBuffer s)")
    case True
    then show ?thesis using 1 by (simp add: frameLoop_unfold)
  next
    case False
    then show ?thesis by (simp add: frameLoop_small)
  qed
qed

lemma frameLoop_queue:
  "\<exists>fs. audioQueue (frameLoop s) = audioQueue s @ fs
        \<and> (\<forall>f \<in> set fs. length f = bufferSize)
        \<and> length fs = length (processingBuffer s) div bufferSize
        \<and> concat fs @ processingBuffer (frameLoop s) = processingBuffer s"
proof (induction s rule: frameLoop.induct)
  case (1 s)
  show ?case
  proof (cases "bufferSize \<le> length (processingBuffer s)")
    case True
    let ?s1 = "s\<lparr>audioQueue := audioQueue s @ [take bufferSize (processingBuffer s)],
                  processingBuffer := drop bufferSize (processingBuffer s)\<rparr>"
    from 1[OF True] obtain fs where
      q: "audioQueue (frameLoop ?s1) = audioQueue ?s1 @ fs" and
      l: "\<forall>f \<in> set fs. length f = bufferSize" and
      n: "length fs = length (processingBuffer ?s1) div bufferSize" and
      c: "concat fs @ processingBuffer (frameLoop ?s1) = processingBuffer ?s1"
      by blast
    let ?fs = "take bufferSize (processingBuffer s) # fs"
    have eq: "frameLoop s = frameLoop ?s1"
      using True by (rule frameLoop_unfold)
    have "audioQueue (frameLoop s) = audioQueue s @ ?fs"
      using q by (simp add: eq)
    moreover have "\<forall>f \<in> set ?fs. length f = bufferSize"
      using l True by (simp add: min_absorb2)
    moreover have "length ?fs = length (processingBuffer s) div bufferSize"
    proof -
      have "length (processingBuffer s) div bufferSize
              = Suc ((length (processingBuffer s) - bufferSize) div bufferSize)"
        using True bufferSize_pos by (simp add: le_div_geq)
      then show ?thesis using n by simp
    qed
    moreover have "concat ?fs @ processingBuffer (frameLoop s) = processingBuffer s"
    proof -
      have "concat ?fs @ processingBuffer (frameLoop s)
              = take bufferSize (processingBuffer s) @ (concat fs @ processingBuffer (frameLoop ?s1))"
        by (simp add: eq)
      also have "\<dots> = take bufferSize (processingBuffer s) @ drop bufferSize (processingBuffer s)"
        using c by simp
      finally show ?thesis by simp
    qed
    ultimately show ?thesis by blast
  next
    case False
    then show ?thesis by (simp add: frameLoop_small)
  qed
qed

lemma frames_unique:
  assumes "\<forall>f \<in> set fs. length f = n" and "\<forall>g \<in> set gs. length g = n"
    and "length r < n" and "length r' < n"
    and "concat fs @ r = concat gs @ r'"
  shows "fs = gs \<and> r = r'"
  using assms
proof (induction fs arbitrary: gs)
  case Nil
  show ?case
  proof (cases gs)
    case Nil
    with Nil.prems show ?thesis by simp
  next
    case (Cons g gs')
    with Nil.prems have "length r = n + length (concat gs' @ r')" by simp
    with Nil.prems show ?thesis by simp
  qed
next
  case (Cons f fs)
  show ?case
  proof (cases gs)
    case Nil
    with Cons.prems have "length r' = n + length (concat fs @ r)"
      by (metis append_Nil concat.simps(1) concat.simps(2) append_assoc length_append list.set_intros(1))
    with Cons.prems show ?thesis by simp
  next
    case (Cons g gs')
    have lf: "length f = length g"
      using Cons.prems(1,2) Cons by simp
    have "f @ (concat fs @ r) = g @ (concat gs' @ r')"
      using Cons.prems(5) Cons by simp
    with lf have "f = g" and "concat fs @ r = concat gs' @ r'"
      by simp_all
    moreover have "fs = gs' \<and> r = r'"
      using Cons.IH[of gs'] Cons.prems Cons \<open>concat fs @ r = concat gs' @ r'\<close> by simp
    ultimately show ?thesis using Cons by simp
  qed
qed

section \<open>Ingestion lemmas\<close>

lemma addPCM16_pb_lt: "length (processingBuffer (addPCM16 chunk s)) < bufferSize"
  by (simp add: addPCM16_def Let_def frameLoop_pb_lt)

lemma addPCM16_started: "started (addPCM16 chunk s) = started s"
  by (simp add: addPCM16_def Let_def frameLoop_others)


lemma addPCM16_queue:
  "\<exists>fs. audioQueue (addPCM16 chunk s) = audioQueue s @ fs
        \<and> (\<forall>f \<in> set fs. length f = bufferSize)
        \<and> length fs = (length (processingBuffer s) + length (pcm16ToFloat chunk)) div bufferSize
        \<and> concat fs @ processingBuffer (addPCM16 chunk s)
            = processingBuffer s @ pcm16ToFloat chunk"
  using frameLoop_queue[of "s\<lparr>processingBuffer := processingBuffer s @ pcm16ToFloat chunk\<rparr>"]
  by (simp add: addPCM16_def Let_def)

lemma addPCM16_allSamples:
  "allSamples (addPCM16 chunk s) = allSamples s @ pcm16ToFloat chunk"
proof -
  from addPCM16_queue[of chunk s] obtain fs where
    q: "audioQueue (addPCM16 chunk s) = audioQueue s @ fs" and
    c: "concat fs @ processingBuffer (addPCM16 chunk s) = processingBuffer s @ pcm16ToFloat chunk"
    by blast
  have "allSamples (addPCM16 chunk s)
          = concat (map snd (started s)) @ concat (audioQueue s)
              @ (concat fs @ processingBuffer (addPCM16 chunk s))"
    by (simp add: allSamples_def framesPushed_def q addPCM16_started)
  then show ?thesis
    by (simp add: c allSamples_def framesPushed_def)
qed


section \<open>Scheduling lemmas\<close>

lemma loopBody_Inl:
  "loopBody s = Inl (e, s1) \<Longrightarrow>
   hd (audioQueue s) = [] \<and> s1 = s\<lparr>audioQueue := tl (audioQueue s)\<rparr>"
  by (simp add: loopBody_def Let_def split: if_splits)

lemma loopBody_Inr:
  "loopBody s = Inr s1 \<Longrightarrow>
   hd (audioQueue s) \<noteq> [] \<and> audioQueue s1 = tl (audioQueue s)
   \<and> started s1 = started s @ [(max (scheduledTime s) (currentTime s), hd (audioQueue s))]
   \<and> scheduledTime s1
        = addDouble (max (scheduledTime s) (currentTime s)) (duration (hd (audioQueue s)))
   \<and> processingBuffer s1 = processingBuffer s \<and> currentTime s1 = currentTime s
   \<and> onCompleteCalls s1 = onCompleteCalls s \<and> isStreamComplete s1 = isStreamComplete s
   \<and> isPlaying s1 = isPlaying s \<and> endedSources s1 = endedSources s"
  by (auto simp: loopBody_def Let_def split: if_splits)

lemma loopBody_total: "hd (audioQueue s) \<noteq> [] \<Longrightarrow> \<exists>s1. loopBody s = Inr s1"
  by (simp add: loopBody_def Let_def)

lemma scheduleLoop_stop:
  "\<not> (audioQueue s \<noteq> [] \<and> scheduledTime s < addDouble (currentTime s) SCHEDULE_AHEAD_TIME) \<Longrightarrow>
   scheduleLoop s = Inr s"
  by (subst scheduleLoop.simps) auto

lemma scheduleLoop_throw:
  "audioQueue s \<noteq> [] \<and> scheduledTime s < addDouble (currentTime s) SCHEDULE_AHEAD_TIME \<Longrightarrow>
   loopBody s = Inl e \<Longrightarrow> scheduleLoop s = Inl e"
  by (subst scheduleLoop.simps) simp

lemma scheduleLoop_next:
  "audioQueue s \<noteq> [] \<and> scheduledTime s < addDouble (currentTime s) SCHEDULE_AHEAD_TIME \<Longrightarrow>
   loopBody s = Inr s1 \<Longrightarrow> scheduleLoop s = scheduleLoop s1"
  by (subst scheduleLoop.simps) simp

lemma scheduleLoop_keeps:
  "processingBuffer (outcomeState (scheduleLoop s)) = processingBuffer s
   \<and> currentTime (outcomeState (scheduleLoop s)) = currentTime s
   \<and> onCompleteCalls (outcomeState (scheduleLoop s)) = onCompleteCalls s
   \<and> isStreamComplete (outcomeState (scheduleLoop s)) = isStreamComplete s
   \<and> allSamples (outcomeState (scheduleLoop s)) = allSamples s"
proof (induction s rule: scheduleLoop.induct)
  case (1 s)
  let ?go = "audioQueue s \<noteq> [] \<and> scheduledTime s < addDouble (currentTime s) SCHEDULE_AHEAD_TIME"
  show ?case
  proof (cases ?go)
    case False
    then show ?thesis by (simp add: scheduleLoop_stop outcomeState_def)
  next
    case True
    then have ne: "audioQueue s = hd (audioQueue s) # tl (audioQueue s)" by simp
    show ?thesis
    proof (cases "loopBody s")
      case (Inl e)
      obtain x s1 where e: "e = (x, s1)" by (cases e)
      from loopBody_Inl[of s x s1] Inl e
      have h: "hd (audioQueue s) = []" and s1: "s1 = s\<lparr>audioQueue := tl (audioQueue s)\<rparr>"
        by simp_all
      have "allSamples s1 = allSamples s"
        using h by (subst (2) allSamples_def, subst framesPushed_def, subst ne)
                   (simp add: s1 allSamples_def framesPushed_def)
      then show ?thesis
        using scheduleLoop_throw[OF True Inl] by (simp add: e outcomeState_def s1)
    next
      case (Inr s1)
      note b = loopBody_Inr[OF Inr]
      have "allSamples s1 = allSamples s"
        using b by (subst (2) allSamples_def, subst framesPushed_def, subst ne)
                   (simp add: allSamples_def framesPushed_def)
      then show ?thesis
        using "1.IH"[OF True Inr] b scheduleLoop_next[OF True Inr] by simp
    qed
  qed
qed

lemma afterLoop_keeps:
  "processingBuffer (afterLoop s) = processingBuffer s
   \<and> audioQueue (afterLoop s) = audioQueue s \<and> started (afterLoop s) = started s
   \<and> scheduledTime (afterLoop s) = scheduledTime s
   \<and> currentTime (afterLoop s) = currentTime s
   \<and> onCompleteCalls (afterLoop s) = onCompleteCalls s
   \<and> isStreamComplete (afterLoop s) = isStreamComplete s"
  by (simp add: afterLoop_def)

lemma outcome_scheduleNextBuffer:
  "outcomeState (scheduleNextBuffer s)
     = (case scheduleLoop s of Inl e \<Rightarrow> snd e | Inr s' \<Rightarrow> afterLoop s')"
  by (simp add: scheduleNextBuffer_def outcomeState_def split: sum.splits prod.splits)

lemma scheduleNextBuffer_keeps:
  "processingBuffer (outcomeState (scheduleNextBuffer s)) = processingBuffer s
   \<and> currentTime (outcomeState (scheduleNextBuffer s)) = currentTime s
   \<and> onCompleteCalls (outcomeState (scheduleNextBuffer s)) = onCompleteCalls s
   \<and> isStreamComplete (outcomeState (scheduleNextBuffer s)) = isStreamComplete s
   \<and> allSamples (outcomeState (scheduleNextBuffer s)) = allSamples s"
proof (cases "scheduleLoop s")
  case (Inl e)
  then have "outcomeState (scheduleNextBuffer s) = outcomeState (scheduleLoop s)"
    by (simp add: scheduleNextBuffer_def)
  then show ?thesis using scheduleLoop_keeps[of s] by simp
next
  case (Inr s')
  then have o: "outcomeState (scheduleNextBuffer s) = afterLoop s'"
    and o': "outcomeState (scheduleLoop s) = s'"
    by (simp_all add: scheduleNextBuffer_def outcomeState_def)
  have "allSamples (afterLoop s') = allSamples s'"
    by (simp add: allSamples_def framesPushed_def afterLoop_keeps)
  then show ?thesis using scheduleLoop_keeps[of s] by (simp add: o o' afterLoop_keeps)
qed

lemma scheduleLoop_frames:
  assumes "\<forall>f \<in> set (audioQueue s). length f = L" and "0 < L"
  shows "\<exists>s'. scheduleLoop s = Inr s'
           \<and> (\<forall>f \<in> set (audioQueue s'). length f = L)
           \<and> currentTime s' = currentTime s
           \<and> framesPushed s' = framesPushed s"
  using assms
proof (induction s rule: scheduleLoop.induct)
  case (1 s)
  let ?go = "audioQueue s \<noteq> [] \<and> scheduledTime s < addDouble (currentTime s) SCHEDULE_AHEAD_TIME"
  show ?case
  proof (cases ?go)
    case False
    then have "scheduleLoop s = Inr s" by (rule scheduleLoop_stop)
    with "1.prems" show ?thesis by simp
  next
    case True
    then have ne: "audioQueue s = hd (audioQueue s) # tl (audioQueue s)" by simp
    then have hdL: "length (hd (audioQueue s)) = L"
      using "1.prems"(1) by (metis list.set_intros(1))
    then have "hd (audioQueue s) \<noteq> []" using "1.prems"(2) by auto
    then obtain s1 where body: "loopBody s = Inr s1"
      using loopBody_total by blast
    note b = loopBody_Inr[OF body]
    have q1: "\<forall>f \<in> set (audioQueue s1). length f = L"
      using b "1.prems"(1) ne by (metis list.set_intros(2))
    from "1.IH"[OF True body q1 "1.prems"(2)] obtain s' where
      r: "scheduleLoop s1 = Inr s'" and
      q: "\<forall>f \<in> set (audioQueue s'). length f = L" and
      c: "currentTime s' = currentTime s1" and
      fp: "framesPushed s' = framesPushed s1"
      by blast
    have fp1: "framesPushed s1 = framesPushed s"
      using b by (subst (2) framesPushed_def, subst ne) (simp add: framesPushed_def)
    have "scheduleLoop s = Inr s'"
      using scheduleLoop_next[OF True body] r by simp
    then show ?thesis
      using q c b fp fp1 by simp
  qed
qed

section \<open>Evaluating runs on whole frames\<close>


lemma pcm16ToFloat_silence: "pcm16ToFloat (silence n) = replicate (n div 2) 0"
proof -
  have wf: "wellFormed (silence n)" by (simp add: wellFormed_def silence_def)
  have "map (sampleAt (replicate n 0)) [0 ..< n div 2] = map (\<lambda>i. 0) [0 ..< n div 2]"
    by (rule map_cong) (auto simp: sampleAt_def int16le_def)
  then show ?thesis
    using pcm16ToFloat_closed[OF wf] by (simp add: silence_def map_replicate_const)
qed

lemma scheduleLoop_unfold:
  "audioQueue s \<noteq> [] \<and> scheduledTime s < addDouble (currentTime s) SCHEDULE_AHEAD_TIME \<Longrightarrow>
   scheduleLoop s = (case loopBody s of Inl e \<Rightarrow> Inl e | Inr s' \<Rightarrow> scheduleLoop s')"
  by (subst scheduleLoop.simps) simp


lemma wellFormed_silence: "wellFormed (silence n)"
  by (simp add: wellFormed_def silence_def)


text \<open>
  The doubles of the example runs: the lead-in \<open>0.1\<close>, the look-ahead \<open>0.2\<close> and the
  duration \<open>0.32\<close> of a full frame of 7680 samples at 24000 Hz. The sum of the doubles
  \<open>0.1\<close> and \<open>0.32\<close> is the double \<open>0.42000000000000004\<close>, and \<open>0.35 + 0.1\<close> is a double
  below \<open>0.25 + 0.2\<close>.
\<close>

lemma duration_frame: "duration (replicate 7680 0) = roundDouble (8 / 25)"
  by (simp add: duration_def sampleRate_def)

lemma double_tenth: "roundDouble (1 / 10) = 3602879701896397 / 36028797018963968"
  by code_simp

lemma double_sum:
  "addDouble (roundDouble (1 / 10)) (roundDouble (8 / 25))
     = 3783023686991217 / 9007199254740992"
  by code_simp

lemma double_lookahead:
  "addDouble (roundDouble (7 / 20)) (roundDouble (1 / 10))
     < addDouble (1 / 4) (roundDouble (1 / 5))"
  by code_simp

lemma doubles_lead:
  "addDouble 0 initialBufferTime = roundDouble (1 / 10)"
  "max (roundDouble (1 / 10)) 0 = roundDouble (1 / 10)"
  "roundDouble (1 / 10) < addDouble 0 SCHEDULE_AHEAD_TIME"
  "addDouble 0 1 = 1"
  "roundDouble (1 / 10) + roundDouble (8 / 25) \<le> 1"
  by code_simp+

lemmas tickEval = scheduleNextBuffer_def scheduleLoop_unfold scheduleLoop_stop loopBody_def
  Let_def afterLoop_def outcomeState_def duration_frame doubles_lead

lemmas ingestEval = addPCM16_def Let_def pcm16ToFloat_silence frameLoop_unfold
  frameLoop_small bufferSize_def wellFormed_silence doubles_lead

section \<open>The accumulation buffer stays below one frame\<close>


lemma step_pb_lt:
  assumes "length (processingBuffer s) < bufferSize" and "step e s = Some s'"
  shows "length (processingBuffer s') < bufferSize"
proof (cases e)
  case (AddPCM16 chunk)
  with assms(2) show ?thesis by (auto simp: addPCM16_pb_lt split: if_splits)
next
  case Complete
  with assms show ?thesis by (auto simp: complete_def Let_def bufferSize_pos)
next
  case Stop
  with assms show ?thesis by (auto simp: stop_def bufferSize_pos)
next
  case Resume
  with assms show ?thesis by (auto simp: resume_def)
next
  case ScheduleTick
  with assms show ?thesis by (auto simp: scheduleNextBuffer_keeps split: if_splits)
next
  case TimeoutFires
  with assms show ?thesis by (auto simp: timeoutCallback_def split: if_splits)
next
  case IntervalFires
  with assms show ?thesis by (auto simp: intervalCallback_def split: if_splits)
next
  case (SourceEnded i)
  with assms show ?thesis
    by (auto simp: sourceEnds_def onendedCallback_def Let_def split: if_splits)
next
  case (ClockAdvance d)
  with assms show ?thesis by (auto simp: Let_def split: if_splits)
qed

lemma run_pb_lt:
  "length (processingBuffer s) < bufferSize \<Longrightarrow> run evs s = Some s' \<Longrightarrow>
   length (processingBuffer s') < bufferSize"
proof (induction evs arbitrary: s)
  case Nil
  then show ?case by simp
next
  case (Cons e evs)
  then show ?case by (auto split: option.splits dest: step_pb_lt)
qed

text \<open>
  Claim C6. Starting from the freshly constructed streamer, after every operation
  (\<open>addPCM16\<close>, \<open>complete\<close>, \<open>stop\<close>, \<open>resume\<close>, and every timer, scheduling or
  end-of-playback callback in between) the accumulation buffer \<open>processingBuffer\<close>
  holds strictly fewer than \<open>bufferSize\<close> samples.
\<close>

theorem accumulation_below_frame_size:
  "run evs initial = Some s \<Longrightarrow> length (processingBuffer s) < bufferSize"
  using run_pb_lt[of initial evs s] by (simp add: initial_def bufferSize_pos)

theorem accumulation_below_frame_size_witness:
  "run [AddPCM16 \<lparr>buffer = [1, 0, 0, 128, 7], byteOffset = 0, byteLength = 5\<rparr>, Resume]
       initial
     = Some \<lparr>audioQueue = [], isPlaying = True, processingBuffer = [1 / 32768, - 1],
         scheduledTime = roundDouble (1 / 10), isStreamComplete = False, checkInterval = False,
         endOfQueueAudioSource = None, currentTime = 0, started = [], onended = {},
         endedSources = {}, scheduleCalls = 1, timeouts = 0, onCompleteCalls = 0\<rparr>
   \<and> length (processingBuffer
         \<lparr>audioQueue = [], isPlaying = True, processingBuffer = [1 / 32768, - 1],
         scheduledTime = roundDouble (1 / 10), isStreamComplete = False, checkInterval = False,
         endOfQueueAudioSource = None, currentTime = 0, started = [], onended = {},
         endedSources = {}, scheduleCalls = 1, timeouts = 0, onCompleteCalls = 0\<rparr>)
       < bufferSize"
proof -
  have r: "run [AddPCM16 \<lparr>buffer = [1, 0, 0, 128, 7], byteOffset = 0, byteLength = 5\<rparr>, Resume]
       initial
     = Some \<lparr>audioQueue = [], isPlaying = True, processingBuffer = [1 / 32768, - 1],
         scheduledTime = roundDouble (1 / 10), isStreamComplete = False, checkInterval = False,
         endOfQueueAudioSource = None, currentTime = 0, started = [], onended = {},
         endedSources = {}, scheduleCalls = 1, timeouts = 0, onCompleteCalls = 0\<rparr>"
    by code_simp
  show ?thesis using r accumulation_below_frame_size[OF r] by simp
qed



section \<open>Every ingested sample is kept, in order\<close>

lemma length_viewBytes: "wellFormed c \<Longrightarrow> length (viewBytes c) = byteLength c"
  by (auto simp: wellFormed_def viewBytes_def)

lemma decode_chunks:
  "\<forall>c \<in> set cs. wellFormed c \<and> byteOffset c = 0 \<and> even (byteLength c) \<Longrightarrow>
   concat (map pcm16ToFloat cs) = decodeLE (concat (map viewBytes cs))"
proof (induction cs)
  case Nil
  then show ?case by simp
next
  case (Cons c cs)
  then have c: "wellFormed c" "byteOffset c = 0" "even (byteLength c)" by simp_all
  have "pcm16ToFloat c = decodeLE (viewBytes c)"
    using c by (simp add: pcm16ToFloat_decodeLE viewBytes_offset0)
  moreover have "even (length (viewBytes c))"
    using c by (simp add: length_viewBytes)
  ultimately show ?case using Cons by (simp add: decodeLE_append)
qed

lemma step_allSamples:
  assumes "step e s = Some s'" and "e \<noteq> Stop"
  shows "allSamples s' = allSamples s @ concat (map pcm16ToFloat (ingested [e]))"
proof (cases e)
  case (AddPCM16 chunk)
  with assms(1) show ?thesis by (auto simp: addPCM16_allSamples split: if_splits)
next
  case Complete
  with assms(1) show ?thesis
    by (auto simp: complete_def Let_def allSamples_def framesPushed_def)
next
  case Stop
  with assms(2) show ?thesis by simp
next
  case Resume
  with assms(1) show ?thesis by (auto simp: resume_def allSamples_def framesPushed_def)
next
  case ScheduleTick
  have "allSamples (s\<lparr>scheduleCalls := scheduleCalls s - 1\<rparr>) = allSamples s"
    by (simp add: allSamples_def framesPushed_def)
  with ScheduleTick assms(1) show ?thesis
    by (auto simp: scheduleNextBuffer_keeps split: if_splits)
next
  case TimeoutFires
  with assms(1) show ?thesis
    by (auto simp: timeoutCallback_def allSamples_def framesPushed_def split: if_splits)
next
  case IntervalFires
  with assms(1) show ?thesis
    by (auto simp: intervalCallback_def allSamples_def framesPushed_def split: if_splits)
next
  case (SourceEnded i)
  with assms(1) show ?thesis
    by (auto simp: sourceEnds_def onendedCallback_def Let_def allSamples_def framesPushed_def
             split: if_splits)
next
  case (ClockAdvance d)
  with assms(1) show ?thesis
    by (auto simp: allSamples_def framesPushed_def Let_def split: if_splits)
qed

lemma ingested_Cons: "ingested (e # es) = ingested [e] @ ingested es"
  by (cases e) simp_all

lemma run_allSamples:
  "run evs s = Some s' \<Longrightarrow> Stop \<notin> set evs \<Longrightarrow>
   allSamples s' = allSamples s @ concat (map pcm16ToFloat (ingested evs))"
proof (induction evs arbitrary: s)
  case Nil
  then show ?case by simp
next
  case (Cons e evs)
  from Cons.prems obtain s1 where s1: "step e s = Some s1" and r: "run evs s1 = Some s'"
    by (auto split: option.splits)
  have "allSamples s1 = allSamples s @ concat (map pcm16ToFloat (ingested [e]))"
    using step_allSamples[OF s1] Cons.prems(2) by auto
  moreover have "allSamples s' = allSamples s1 @ concat (map pcm16ToFloat (ingested evs))"
    using Cons.IH[OF r] Cons.prems(2) by simp
  ultimately show ?case by (subst ingested_Cons) simp
qed

lemma run_wellFormed: "run evs s = Some s' \<Longrightarrow> c \<in> set (ingested evs) \<Longrightarrow> wellFormed c"
proof (induction evs arbitrary: s)
  case Nil
  then show ?case by simp
next
  case (Cons e evs)
  then show ?case by (cases e) (auto split: option.splits if_splits)
qed

lemma allSamples_initial: "allSamples initial = []"
  by (simp add: allSamples_def framesPushed_def initial_def)

lemma run_decoded:
  assumes "run evs initial = Some s" and "Stop \<notin> set evs"
    and "\<forall>c \<in> set (ingested evs). byteOffset c = 0 \<and> even (byteLength c)"
  shows "allSamples s = decodeLE (totalBytes evs)"
proof -
  have "\<forall>c \<in> set (ingested evs). wellFormed c \<and> byteOffset c = 0 \<and> even (byteLength c)"
    using assms(3) run_wellFormed[OF assms(1)] by blast
  then have "concat (map pcm16ToFloat (ingested evs)) = decodeLE (totalBytes evs)"
    unfolding totalBytes_def by (rule decode_chunks)
  then show ?thesis
    using run_allSamples[OF assms(1,2)] by (simp add: allSamples_initial)
qed

text \<open>
  Claim C1, as amended. Take any run of the streamer from its initial state in which
  every chunk passed to \<open>addPCM16\<close> is a view at byte offset 0 with an even number of
  bytes. Then the samples produced by the calls, in order, are exactly the little-endian
  signed 16-bit values of the concatenated chunk bytes, each divided by 32768; there are
  \<open>totalBytes / 2\<close> of them and each lies in \<open>[-1, 1]\<close>. Unless \<open>stop\<close> is called, they
  are the samples the streamer holds: frames already started, frames queued and the
  accumulation buffer, in that order.
\<close>

theorem ingested_samples_decoded:
  assumes "run evs initial = Some s"
    and "\<forall>c \<in> set (ingested evs). byteOffset c = 0 \<and> even (byteLength c)"
  shows "concat (map pcm16ToFloat (ingested evs)) = decodeLE (totalBytes evs)
         \<and> length (concat (map pcm16ToFloat (ingested evs))) = length (totalBytes evs) div 2
         \<and> (\<forall>x \<in> set (concat (map pcm16ToFloat (ingested evs))). - 1 \<le> x \<and> x \<le> 1)
         \<and> (Stop \<notin> set evs \<longrightarrow> allSamples s = concat (map pcm16ToFloat (ingested evs)))"
proof -
  have "\<forall>c \<in> set (ingested evs). wellFormed c \<and> byteOffset c = 0 \<and> even (byteLength c)"
    using assms(2) run_wellFormed[OF assms(1)] by blast
  then have eq: "concat (map pcm16ToFloat (ingested evs)) = decodeLE (totalBytes evs)"
    unfolding totalBytes_def by (rule decode_chunks)
  moreover have "\<forall>x \<in> set (decodeLE (totalBytes evs)). - 1 \<le> x \<and> x \<le> 1"
    using decodeLE_range by (metis less_imp_le)
  moreover have "Stop \<notin> set evs \<longrightarrow> allSamples s = concat (map pcm16ToFloat (ingested evs))"
    using run_allSamples[OF assms(1)] by (simp add: allSamples_initial)
  ultimately show ?thesis by (simp add: length_decodeLE)
qed

theorem ingested_samples_decoded_witness:
  "map_option allSamples
     (run [AddPCM16 \<lparr>buffer = [255, 127], byteOffset = 0, byteLength = 2\<rparr>, Complete,
           ScheduleTick,
           AddPCM16 \<lparr>buffer = [0, 128, 1, 0], byteOffset = 0, byteLength = 4\<rparr>] initial)
     = Some [32767 / 32768, - 1, 1 / 32768]
   \<and> length (totalBytes
         [AddPCM16 \<lparr>buffer = [255, 127], byteOffset = 0, byteLength = 2\<rparr>, Complete,
          ScheduleTick,
          AddPCM16 \<lparr>buffer = [0, 128, 1, 0], byteOffset = 0, byteLength = 4\<rparr>]) = 6"
proof -
  let ?evs = "[AddPCM16 \<lparr>buffer = [255, 127], byteOffset = 0, byteLength = 2\<rparr>, Complete,
               ScheduleTick,
               AddPCM16 \<lparr>buffer = [0, 128, 1, 0], byteOffset = 0, byteLength = 4\<rparr>]"
  let ?s = "\<lparr>audioQueue = [], isPlaying = True, processingBuffer = [- 1, 1 / 32768],
     scheduledTime = roundDouble (1 / 10), isStreamComplete = True, checkInterval = False,
     endOfQueueAudioSource = Some 0, currentTime = 0,
     started = [(roundDouble (1 / 10), [32767 / 32768])], onended = {0},
     endedSources = {}, scheduleCalls = 2, timeouts = 0,
     onCompleteCalls = 0\<rparr>"
  have r: "run ?evs initial = Some ?s" by code_simp
  have n: "Stop \<notin> set ?evs" by simp
  have c: "\<forall>c \<in> set (ingested ?evs). byteOffset c = 0 \<and> even (byteLength c)" by simp
  have d: "decodeLE (totalBytes ?evs) = [32767 / 32768, - 1, 1 / 32768]" by code_simp
  have l: "length (totalBytes ?evs) = 6" by code_simp
  from ingested_samples_decoded[OF r c] n
  have "allSamples ?s = decodeLE (totalBytes ?evs)" by metis
  then show ?thesis
    by (simp only: r d l option.map)
qed

text \<open>
  The claim as stated fails in two ways. Two chunks of one byte each carry 2 bytes in
  total, yet no sample is produced, where \<open>totalBytes / 2 = 1\<close>. And a two-byte view at
  offset 2 of the buffer \<open>[1, 0, 0, 128]\<close> designates the bytes \<open>[0, 128]\<close>, whose
  little-endian value divided by 32768 is \<open>-1\<close>, yet the sample produced is \<open>1 / 32768\<close>.
\<close>

theorem ingested_samples_counterexample:
  "map_option allSamples
     (run [AddPCM16 \<lparr>buffer = [7], byteOffset = 0, byteLength = 1\<rparr>,
           AddPCM16 \<lparr>buffer = [7], byteOffset = 0, byteLength = 1\<rparr>] initial) = Some []
   \<and> totalBytes [AddPCM16 \<lparr>buffer = [7], byteOffset = 0, byteLength = 1\<rparr>,
                  AddPCM16 \<lparr>buffer = [7], byteOffset = 0, byteLength = 1\<rparr>] = [7, 7]
   \<and> map_option allSamples
       (run [AddPCM16 \<lparr>buffer = [1, 0, 0, 128], byteOffset = 2, byteLength = 2\<rparr>] initial)
       = Some [1 / 32768]
   \<and> totalBytes [AddPCM16 \<lparr>buffer = [1, 0, 0, 128], byteOffset = 2, byteLength = 2\<rparr>]
       = [0, 128]
   \<and> decodeLE [0, 128] = [- 1]"
  by code_simp


section \<open>Chunk views are decoded from the start of their buffer\<close>

text \<open>
  Claim C10. \<open>addPCM16\<close> builds its \<open>DataView\<close> on \<open>chunk.buffer\<close> without the view's
  offset, so for every chunk the samples produced are the decoding of the first
  \<open>chunk.length\<close> bytes of the underlying buffer; they are the decoding of the bytes the
  view designates when \<open>byteOffset = 0\<close>.
\<close>

theorem decodes_from_buffer_start:
  "wellFormed chunk \<Longrightarrow>
   pcm16ToFloat chunk = decodeLE (take (byteLength chunk) (buffer chunk))
   \<and> (byteOffset chunk = 0 \<longrightarrow> pcm16ToFloat chunk = decodeLE (viewBytes chunk))"
  by (simp add: pcm16ToFloat_decodeLE viewBytes_offset0)

theorem decodes_from_buffer_start_witness:
  "wellFormed \<lparr>buffer = [1, 0, 0, 128], byteOffset = 2, byteLength = 2\<rparr>
   \<and> pcm16ToFloat \<lparr>buffer = [1, 0, 0, 128], byteOffset = 2, byteLength = 2\<rparr> = [1 / 32768]
   \<and> decodeLE (viewBytes \<lparr>buffer = [1, 0, 0, 128], byteOffset = 2, byteLength = 2\<rparr>) = [- 1]
   \<and> wellFormed \<lparr>buffer = [0, 128], byteOffset = 0, byteLength = 2\<rparr>
   \<and> pcm16ToFloat \<lparr>buffer = [0, 128], byteOffset = 0, byteLength = 2\<rparr> = [- 1]"
proof -
  let ?c = "\<lparr>buffer = [1, 0, 0, 128], byteOffset = 2, byteLength = 2\<rparr> :: uint8Array"
  let ?d = "\<lparr>buffer = [0, 128], byteOffset = 0, byteLength = 2\<rparr> :: uint8Array"
  have wc: "wellFormed ?c" and wd: "wellFormed ?d" by (simp_all add: wellFormed_def)
  have a: "decodeLE (take (byteLength ?c) (buffer ?c)) = [1 / 32768]" by code_simp
  have b: "decodeLE (viewBytes ?c) = [- 1]" by code_simp
  have e: "decodeLE (viewBytes ?d) = [- 1]" by code_simp
  have o: "byteOffset ?d = 0" by simp
  have A: "pcm16ToFloat ?c = decodeLE (take (byteLength ?c) (buffer ?c))"
    using decodes_from_buffer_start[OF wc] by (rule conjunct1)
  have D: "pcm16ToFloat ?d = decodeLE (viewBytes ?d)"
    using decodes_from_buffer_start[OF wd] o by blast
  show ?thesis
    unfolding A D a b e using wc wd by simp
qed

section \<open>Completion\<close>

text \<open>
  Claim C5. When \<open>complete\<close> is called with a non-empty accumulation buffer, the partial
  contents are appended to the playback queue as a final frame (nothing is discarded), the
  accumulation buffer is emptied and the stream-completion flag is set, without firing
  \<open>onComplete\<close> at that moment. When the accumulation buffer is empty and nothing is
  queued, the flag is set and \<open>onComplete\<close> fires immediately.
\<close>

theorem complete_flushes_partial_frame:
  "(processingBuffer s \<noteq> [] \<longrightarrow>
      audioQueue (complete s) = audioQueue s @ [processingBuffer s]
      \<and> processingBuffer (complete s) = []
      \<and> isStreamComplete (complete s)
      \<and> onCompleteCalls (complete s) = onCompleteCalls s)
   \<and> (processingBuffer s = [] \<and> audioQueue s = [] \<longrightarrow>
      isStreamComplete (complete s)
      \<and> audioQueue (complete s) = []
      \<and> onCompleteCalls (complete s) = onCompleteCalls s + 1)"
  by (simp add: complete_def Let_def)

theorem complete_flushes_partial_frame_witness:
  "audioQueue (complete (initial\<lparr>processingBuffer := [1 / 2, - 1 / 4]\<rparr>)) = [[1 / 2, - 1 / 4]]
   \<and> processingBuffer (complete (initial\<lparr>processingBuffer := [1 / 2, - 1 / 4]\<rparr>)) = []
   \<and> isStreamComplete (complete (initial\<lparr>processingBuffer := [1 / 2, - 1 / 4]\<rparr>))
   \<and> onCompleteCalls (complete (initial\<lparr>processingBuffer := [1 / 2, - 1 / 4]\<rparr>)) = 0
   \<and> isStreamComplete (complete initial)
   \<and> onCompleteCalls (complete initial) = 1"
  using complete_flushes_partial_frame[of "initial\<lparr>processingBuffer := [1 / 2, - 1 / 4]\<rparr>"]
        complete_flushes_partial_frame[of initial]
  by (simp add: initial_def)






section \<open>Frames do not depend on chunk boundaries\<close>

lemma step_fullFrames:
  assumes "\<forall>f \<in> set (framesPushed s). length f = bufferSize"
    and "step e s = Some s'" and "e \<noteq> Complete"
  shows "\<forall>f \<in> set (framesPushed s'). length f = bufferSize"
proof (cases e)
  case (AddPCM16 chunk)
  then have s': "s' = addPCM16 chunk s" using assms(2) by (auto split: if_splits)
  from addPCM16_queue[of chunk s] obtain fs where
    "audioQueue (addPCM16 chunk s) = audioQueue s @ fs" and "\<forall>f \<in> set fs. length f = bufferSize"
    by blast
  then show ?thesis
    using assms(1) by (auto simp: s' framesPushed_def addPCM16_started)
next
  case Complete
  with assms(3) show ?thesis by simp
next
  case Stop
  with assms(2) have "set (framesPushed s') \<subseteq> set (framesPushed s)"
    by (auto simp: stop_def framesPushed_def)
  with assms(1) show ?thesis by blast
next
  case Resume
  with assms(2) have "framesPushed s' = framesPushed s"
    by (auto simp: resume_def framesPushed_def split: if_splits)
  with assms(1) show ?thesis by simp
next
  case ScheduleTick
  let ?s0 = "s\<lparr>scheduleCalls := scheduleCalls s - 1\<rparr>"
  have s': "s' = outcomeState (scheduleNextBuffer ?s0)"
    using ScheduleTick assms(2) by (auto split: if_splits)
  have q: "\<forall>f \<in> set (audioQueue ?s0). length f = bufferSize"
    using assms(1) by (simp add: framesPushed_def)
  from scheduleLoop_frames[OF q bufferSize_pos] obtain s1 where
    l: "scheduleLoop ?s0 = Inr s1" and fp: "framesPushed s1 = framesPushed ?s0"
    by blast
  have "s' = afterLoop s1"
    using l by (simp add: s' scheduleNextBuffer_def outcomeState_def)
  then have "framesPushed s' = framesPushed s"
    using fp by (simp add: framesPushed_def afterLoop_keeps)
  with assms(1) show ?thesis by simp
next
  case TimeoutFires
  with assms(2) have "framesPushed s' = framesPushed s"
    by (auto simp: timeoutCallback_def framesPushed_def split: if_splits)
  with assms(1) show ?thesis by simp
next
  case IntervalFires
  with assms(2) have "framesPushed s' = framesPushed s"
    by (auto simp: intervalCallback_def framesPushed_def split: if_splits)
  with assms(1) show ?thesis by simp
next
  case (SourceEnded i)
  with assms(2) have "framesPushed s' = framesPushed s"
    by (auto simp: sourceEnds_def onendedCallback_def Let_def framesPushed_def split: if_splits)
  with assms(1) show ?thesis by simp
next
  case (ClockAdvance d)
  with assms(2) have "framesPushed s' = framesPushed s"
    by (auto simp: framesPushed_def Let_def split: if_splits)
  with assms(1) show ?thesis by simp
qed

lemma run_fullFrames:
  "\<forall>f \<in> set (framesPushed s). length f = bufferSize \<Longrightarrow> run evs s = Some s' \<Longrightarrow>
   Complete \<notin> set evs \<Longrightarrow> \<forall>f \<in> set (framesPushed s'). length f = bufferSize"
proof (induction evs arbitrary: s)
  case Nil
  then show ?case by simp
next
  case (Cons e evs)
  from Cons.prems obtain s1 where s1: "step e s = Some s1" and r: "run evs s1 = Some s'"
    by (auto split: option.splits)
  have "\<forall>f \<in> set (framesPushed s1). length f = bufferSize"
    using step_fullFrames[OF Cons.prems(1) s1] Cons.prems(3) by auto
  then show ?case using Cons.IH[OF _ r] Cons.prems(3) by simp
qed

lemma run_initial_fullFrames:
  assumes "run evs initial = Some s" and "Complete \<notin> set evs"
  shows "\<forall>f \<in> set (framesPushed s). length f = bufferSize"
proof -
  have "\<forall>f \<in> set (framesPushed initial). length f = bufferSize"
    by (simp add: framesPushed_def initial_def)
  then show ?thesis using assms by (rule run_fullFrames)
qed

lemma run_initial_pb_lt: "run evs initial = Some s \<Longrightarrow> length (processingBuffer s) < bufferSize"
  using run_pb_lt[of initial evs s] by (simp add: initial_def bufferSize_pos)

text \<open>
  Claim C3, as amended. Take two runs of the streamer from its initial state, neither
  calling \<open>stop\<close> or \<open>complete\<close>, in which every chunk passed to \<open>addPCM16\<close> is a view
  at byte offset 0 with an even number of bytes. If the concatenated chunk bytes of the
  two runs are equal, the frames pushed onto the playback queue (those already started
  followed by those still queued) are the same in number, content and order, and the
  accumulation buffers are equal, however the bytes were split into chunks.
\<close>

theorem frames_independent_of_chunking:
  assumes "run evs1 initial = Some s1" and "run evs2 initial = Some s2"
    and "Stop \<notin> set evs1 \<and> Complete \<notin> set evs1"
    and "Stop \<notin> set evs2 \<and> Complete \<notin> set evs2"
    and "\<forall>c \<in> set (ingested evs1 @ ingested evs2). byteOffset c = 0 \<and> even (byteLength c)"
    and "totalBytes evs1 = totalBytes evs2"
  shows "framesPushed s1 = framesPushed s2 \<and> processingBuffer s1 = processingBuffer s2"
proof -
  have "allSamples s1 = decodeLE (totalBytes evs1)"
    using assms(1,3,5) by (intro run_decoded) auto
  moreover have "allSamples s2 = decodeLE (totalBytes evs2)"
    using assms(2,4,5) by (intro run_decoded) auto
  ultimately have "concat (framesPushed s1) @ processingBuffer s1
                     = concat (framesPushed s2) @ processingBuffer s2"
    using assms(6) by (simp add: allSamples_def)
  moreover have "\<forall>f \<in> set (framesPushed s1). length f = bufferSize"
    using assms(1,3) by (intro run_initial_fullFrames) auto
  moreover have "\<forall>f \<in> set (framesPushed s2). length f = bufferSize"
    using assms(2,4) by (intro run_initial_fullFrames) auto
  moreover note run_initial_pb_lt[OF assms(1)] run_initial_pb_lt[OF assms(2)]
  ultimately show ?thesis by (intro frames_unique[where n = bufferSize]) auto
qed

theorem frames_independent_of_chunking_witness:
  "map_option framesPushed (run [AddPCM16 (silence 30720)] initial)
     = Some [replicate 7680 0, replicate 7680 0]
   \<and> map_option framesPushed
       (run [AddPCM16 (silence 15360), ScheduleTick, AddPCM16 (silence 15360)] initial)
     = Some [replicate 7680 0, replicate 7680 0]
   \<and> map_option audioQueue
       (run [AddPCM16 (silence 15360), ScheduleTick, AddPCM16 (silence 15360)] initial)
     = Some [replicate 7680 0]"
proof -
  let ?evs1 = "[AddPCM16 (silence 30720)]"
  let ?evs2 = "[AddPCM16 (silence 15360), ScheduleTick, AddPCM16 (silence 15360)]"
  let ?s1 = "\<lparr>audioQueue = [replicate 7680 0, replicate 7680 0], isPlaying = True,
     processingBuffer = [], scheduledTime = roundDouble (1 / 10), isStreamComplete = False,
     checkInterval = False, endOfQueueAudioSource = None, currentTime = 0, started = [],
     onended = {}, endedSources = {}, scheduleCalls = 1, timeouts = 0,
     onCompleteCalls = 0\<rparr>"
  let ?a = "\<lparr>audioQueue = [replicate 7680 0], isPlaying = True, processingBuffer = [],
     scheduledTime = roundDouble (1 / 10), isStreamComplete = False, checkInterval = False,
     endOfQueueAudioSource = None, currentTime = 0, started = [], onended = {},
     endedSources = {}, scheduleCalls = 1, timeouts = 0, onCompleteCalls = 0\<rparr>"
  let ?b = "\<lparr>audioQueue = [], isPlaying = True, processingBuffer = [],
     scheduledTime = addDouble (roundDouble (1 / 10)) (roundDouble (8 / 25)),
     isStreamComplete = False, checkInterval = True,
     endOfQueueAudioSource = Some 0, currentTime = 0,
     started = [(roundDouble (1 / 10), replicate 7680 0)], onended = {0},
     endedSources = {}, scheduleCalls = 0, timeouts = 0, onCompleteCalls = 0\<rparr>"
  let ?s2 = "\<lparr>audioQueue = [replicate 7680 0], isPlaying = True, processingBuffer = [],
     scheduledTime = addDouble (roundDouble (1 / 10)) (roundDouble (8 / 25)),
     isStreamComplete = False, checkInterval = True,
     endOfQueueAudioSource = Some 0, currentTime = 0,
     started = [(roundDouble (1 / 10), replicate 7680 0)], onended = {0},
     endedSources = {}, scheduleCalls = 0, timeouts = 0, onCompleteCalls = 0\<rparr>"
  have 1: "step (AddPCM16 (silence 30720)) initial = Some ?s1"
    by (simp add: ingestEval initial_def)
  have 2: "step (AddPCM16 (silence 15360)) initial = Some ?a"
    by (simp add: ingestEval initial_def)
  have 3: "step ScheduleTick ?a = Some ?b"
    by (simp add: tickEval)
  have 4: "step (AddPCM16 (silence 15360)) ?b = Some ?s2"
    by (simp add: ingestEval)
  have r1: "run ?evs1 initial = Some ?s1"
    by (simp only: run.simps 1 option.case)
  have r2: "run ?evs2 initial = Some ?s2"
    by (simp only: run.simps 2 3 4 option.case)
  have n1: "Stop \<notin> set ?evs1 \<and> Complete \<notin> set ?evs1" by simp
  have n2: "Stop \<notin> set ?evs2 \<and> Complete \<notin> set ?evs2" by simp
  have c: "\<forall>c \<in> set (ingested ?evs1 @ ingested ?evs2). byteOffset c = 0 \<and> even (byteLength c)"
    by (simp add: silence_def)
  have b: "totalBytes ?evs1 = totalBytes ?evs2"
    by (simp add: totalBytes_def viewBytes_def silence_def replicate_add[symmetric])
  have f1: "framesPushed ?s1 = [replicate 7680 0, replicate 7680 0]"
    by (simp add: framesPushed_def)
  from frames_independent_of_chunking[OF r1 r2 n1 n2 c b]
  have "framesPushed ?s2 = framesPushed ?s1" by simp
  then show ?thesis by (simp only: r1 r2 f1 option.map) simp
qed

text \<open>
  The claim as stated fails when a chunk boundary falls inside a sample: 15360 bytes
  ingested as one chunk give one full frame, the same bytes ingested as a chunk of 1 byte
  and a chunk of 15359 bytes give 7679 samples and no frame.
\<close>

theorem frames_depend_on_odd_chunks_counterexample:
  "totalBytes [AddPCM16 (silence 15360)]
     = totalBytes [AddPCM16 (silence 1), AddPCM16 (silence 15359)]
   \<and> map_option framesPushed (run [AddPCM16 (silence 15360)] initial)
       = Some [replicate 7680 0]
   \<and> map_option framesPushed (run [AddPCM16 (silence 1), AddPCM16 (silence 15359)] initial)
       = Some []
   \<and> map_option processingBuffer
       (run [AddPCM16 (silence 1), AddPCM16 (silence 15359)] initial)
       = Some (replicate 7679 0)"
proof -
  let ?a = "\<lparr>audioQueue = [replicate 7680 0], isPlaying = True, processingBuffer = [],
     scheduledTime = roundDouble (1 / 10), isStreamComplete = False, checkInterval = False,
     endOfQueueAudioSource = None, currentTime = 0, started = [], onended = {},
     endedSources = {}, scheduleCalls = 1, timeouts = 0, onCompleteCalls = 0\<rparr>"
  let ?b = "\<lparr>audioQueue = [], isPlaying = True, processingBuffer = [],
     scheduledTime = roundDouble (1 / 10), isStreamComplete = False, checkInterval = False,
     endOfQueueAudioSource = None, currentTime = 0, started = [], onended = {},
     endedSources = {}, scheduleCalls = 1, timeouts = 0, onCompleteCalls = 0\<rparr>"
  let ?c = "\<lparr>audioQueue = [], isPlaying = True, processingBuffer = replicate 7679 0,
     scheduledTime = roundDouble (1 / 10), isStreamComplete = False, checkInterval = False,
     endOfQueueAudioSource = None, currentTime = 0, started = [], onended = {},
     endedSources = {}, scheduleCalls = 1, timeouts = 0, onCompleteCalls = 0\<rparr>"
  have 1: "step (AddPCM16 (silence 15360)) initial = Some ?a"
    by (simp add: ingestEval initial_def)
  have 2: "step (AddPCM16 (silence 1)) initial = Some ?b"
    by (simp add: ingestEval initial_def)
  have 3: "step (AddPCM16 (silence 15359)) ?b = Some ?c"
    by (simp add: ingestEval)
  have r1: "run [AddPCM16 (silence 15360)] initial = Some ?a"
    by (simp only: run.simps 1 option.case)
  have r2: "run [AddPCM16 (silence 1), AddPCM16 (silence 15359)] initial = Some ?c"
    by (simp only: run.simps 2 3 option.case)
  have rep: "replicate 15360 (0::byte) = 0 # replicate 15359 0"
    using replicate_add[of 1 15359 "0::byte"] by simp
  have b: "totalBytes [AddPCM16 (silence 15360)]
             = totalBytes [AddPCM16 (silence 1), AddPCM16 (silence 15359)]"
    by (simp add: totalBytes_def viewBytes_def silence_def rep)
  show ?thesis
    unfolding r1 r2 using b by (simp add: framesPushed_def)
qed

section \<open>The schedule clock\<close>

lemma length_startTimes: "length (startTimes now t fs) = length fs"
  by (induction fs arbitrary: t) simp_all

lemma onTime_scheduleEnd:
  "onTime now t fs \<Longrightarrow> scheduleEnd now t fs = foldl addDouble t (map duration fs)"
  by (induction fs arbitrary: t) (simp_all add: max_absorb1)

lemma foldl_addDouble_replicate: "foldl addDouble t (replicate n d) = addTimes n d t"
  by (induction n arbitrary: t) simp_all

lemma scheduleLoop_schedule:
  "\<exists>fs. started (outcomeState (scheduleLoop s))
           = started s @ zip (startTimes (currentTime s) (scheduledTime s) fs) fs
        \<and> scheduledTime (outcomeState (scheduleLoop s))
           = scheduleEnd (currentTime s) (scheduledTime s) fs
        \<and> fs = take (length fs) (audioQueue s)"
proof (induction s rule: scheduleLoop.induct)
  case (1 s)
  let ?go = "audioQueue s \<noteq> [] \<and> scheduledTime s < addDouble (currentTime s) SCHEDULE_AHEAD_TIME"
  show ?case
  proof (cases ?go)
    case False
    then have "outcomeState (scheduleLoop s) = s"
      by (simp add: scheduleLoop_stop outcomeState_def)
    then show ?thesis by (intro exI[of _ "[]"]) simp
  next
    case True
    then have ne: "audioQueue s = hd (audioQueue s) # tl (audioQueue s)" by simp
    show ?thesis
    proof (cases "loopBody s")
      case (Inl e)
      obtain x s1 where e: "e = (x, s1)" by (cases e)
      from loopBody_Inl[of s x s1] Inl e
      have "s1 = s\<lparr>audioQueue := tl (audioQueue s)\<rparr>" by simp
      then have "outcomeState (scheduleLoop s) = s\<lparr>audioQueue := tl (audioQueue s)\<rparr>"
        using scheduleLoop_throw[OF True Inl] by (simp add: e outcomeState_def)
      then show ?thesis by (intro exI[of _ "[]"]) simp
    next
      case (Inr s1)
      note b = loopBody_Inr[OF Inr]
      let ?f = "hd (audioQueue s)"
      let ?start = "max (scheduledTime s) (currentTime s)"
      from "1.IH"[OF True Inr] obtain fs where
        st: "started (outcomeState (scheduleLoop s1))
               = started s1 @ zip (startTimes (currentTime s1) (scheduledTime s1) fs) fs" and
        en: "scheduledTime (outcomeState (scheduleLoop s1))
               = scheduleEnd (currentTime s1) (scheduledTime s1) fs" and
        tk: "fs = take (length fs) (audioQueue s1)"
        by blast
      have eq: "scheduleLoop s = scheduleLoop s1"
        by (rule scheduleLoop_next[OF True Inr])
      have "started (outcomeState (scheduleLoop s))
              = started s @ zip (startTimes (currentTime s) (scheduledTime s) (?f # fs)) (?f # fs)"
        using st b by (simp add: eq)
      moreover have "scheduledTime (outcomeState (scheduleLoop s))
              = scheduleEnd (currentTime s) (scheduledTime s) (?f # fs)"
        using en b by (simp add: eq)
      moreover have "?f # fs = take (length (?f # fs)) (audioQueue s)"
        using tk b by (subst (2) ne) simp
      ultimately show ?thesis by blast
    qed
  qed
qed

lemma tick_schedule:
  assumes "step ScheduleTick s = Some s1"
  shows "\<exists>fs. started s1 = started s @ zip (startTimes (currentTime s) (scheduledTime s) fs) fs
           \<and> scheduledTime s1 = scheduleEnd (currentTime s) (scheduledTime s) fs
           \<and> fs = take (length fs) (audioQueue s)"
proof -
  let ?s0 = "s\<lparr>scheduleCalls := scheduleCalls s - 1\<rparr>"
  have s1: "s1 = outcomeState (scheduleNextBuffer ?s0)"
    using assms by (auto split: if_splits)
  have keep: "started s1 = started (outcomeState (scheduleLoop ?s0))
              \<and> scheduledTime s1 = scheduledTime (outcomeState (scheduleLoop ?s0))"
  proof (cases "scheduleLoop ?s0")
    case (Inl e)
    then show ?thesis by (simp add: s1 scheduleNextBuffer_def)
  next
    case (Inr s')
    then show ?thesis
      by (simp add: s1 scheduleNextBuffer_def outcomeState_def afterLoop_keeps)
  qed
  from scheduleLoop_schedule[of ?s0] show ?thesis
    unfolding keep[THEN conjunct1] keep[THEN conjunct2] by simp
qed

lemma tick_startedSince:
  assumes "step ScheduleTick s = Some s1"
  shows "started s1 = started s @ startedSince s s1
         \<and> map snd (startedSince s s1) = take (length (startedSince s s1)) (audioQueue s)
         \<and> map fst (startedSince s s1)
             = startTimes (currentTime s) (scheduledTime s) (map snd (startedSince s s1))
         \<and> scheduledTime s1
             = scheduleEnd (currentTime s) (scheduledTime s) (map snd (startedSince s s1))"
proof -
  from tick_schedule[OF assms] obtain fs where
    st: "started s1 = started s @ zip (startTimes (currentTime s) (scheduledTime s) fs) fs" and
    en: "scheduledTime s1 = scheduleEnd (currentTime s) (scheduledTime s) fs" and
    tk: "fs = take (length fs) (audioQueue s)"
    by blast
  have since: "startedSince s s1 = zip (startTimes (currentTime s) (scheduledTime s) fs) fs"
    by (simp add: startedSince_def st)
  have sn: "map snd (startedSince s s1) = fs" and ln: "length (startedSince s s1) = length fs"
    and ft: "map fst (startedSince s s1) = startTimes (currentTime s) (scheduledTime s) fs"
    by (simp_all add: since length_startTimes)
  show ?thesis
    unfolding sn ln ft using st en tk since by simp
qed

lemma step_keeps_schedule:
  assumes "step e s = Some s1" and "keepsSchedule e s" and "e \<noteq> ScheduleTick"
  shows "started s1 = started s \<and> scheduledTime s1 = scheduledTime s"
proof (cases e)
  case (AddPCM16 chunk)
  with assms(2) have "isPlaying s" by simp
  then have eq: "addPCM16 chunk s
               = frameLoop (s\<lparr>processingBuffer := processingBuffer s @ pcm16ToFloat chunk\<rparr>)"
    by (simp add: addPCM16_def Let_def frameLoop_others)
  have "s1 = addPCM16 chunk s"
    using AddPCM16 assms(1) by (auto split: if_splits)
  then show ?thesis
    unfolding eq by (simp add: frameLoop_others)
next
  case Complete
  with assms(1) show ?thesis by (auto simp: complete_def Let_def)
next
  case TimeoutFires
  with assms(1) show ?thesis by (auto simp: timeoutCallback_def split: if_splits)
next
  case IntervalFires
  with assms(1) show ?thesis by (auto simp: intervalCallback_def split: if_splits)
next
  case (SourceEnded i)
  with assms(1) show ?thesis
    by (auto simp: sourceEnds_def onendedCallback_def Let_def split: if_splits)
next
  case (ClockAdvance d)
  with assms(1) show ?thesis by (auto simp: Let_def split: if_splits)
qed (use assms(2,3) in simp_all)

lemma run_schedule:
  assumes "run evs s = Some s'" and "scheduleKept evs s" and "startsOnTime evs s"
  shows "started s' = started s @ startedSince s s'
         \<and> scheduledTime s'
             = foldl addDouble (scheduledTime s) (map duration (map snd (startedSince s s')))"
  using assms
proof (induction evs arbitrary: s)
  case Nil
  then show ?case by (simp add: startedSince_def)
next
  case (Cons e evs)
  from Cons.prems(1) obtain s1 where s1: "step e s = Some s1" and r: "run evs s1 = Some s'"
    by (auto split: option.splits)
  have k: "scheduleKept evs s1" and o: "startsOnTime evs s1"
    using Cons.prems(2,3) s1 by simp_all
  note ih = Cons.IH[OF r k o]
  have first: "started s1 = started s @ startedSince s s1
               \<and> scheduledTime s1
                   = foldl addDouble (scheduledTime s) (map duration (map snd (startedSince s s1)))"
  proof (cases "e = ScheduleTick")
    case True
    then have t: "step ScheduleTick s = Some s1" using s1 by simp
    have "onTime (currentTime s) (scheduledTime s) (map snd (startedSince s s1))"
      using Cons.prems(3) s1 True by simp
    then show ?thesis
      using tick_startedSince[OF t] by (simp add: onTime_scheduleEnd)
  next
    case False
    have "keepsSchedule e s" using Cons.prems(2) by simp
    from step_keeps_schedule[OF s1 this False] show ?thesis
      by (simp add: startedSince_def)
  qed
  have split: "startedSince s s' = startedSince s s1 @ startedSince s1 s'"
  proof -
    have "started s' = started s @ (startedSince s s1 @ startedSince s1 s')"
      using ih first by simp
    then have "drop (length (started s)) (started s')
                 = drop (length (started s))
                     (started s @ (startedSince s s1 @ startedSince s1 s'))"
      by (rule arg_cong)
    also have "\<dots> = startedSince s s1 @ startedSince s1 s'"
      by simp
    finally show ?thesis
      unfolding startedSince_def[of s s'] .
  qed
  show ?case
    using ih first by (simp add: split)
qed

text \<open>
  Claim C2, as amended. A scheduling pass starts frames from the head of the queue; each
  is started at \<open>max(scheduledTime, currentTime)\<close>, and \<open>scheduledTime\<close> then becomes that
  start time plus the frame's duration, computed in doubles. In a run in which the
  schedule is not reset (no \<open>stop\<close>, no \<open>resume\<close>, no \<open>addPCM16\<close> that finds playback
  idle) and every frame is started while \<open>currentTime \<le> scheduledTime\<close>, \<open>scheduledTime\<close>
  is the schedule time \<open>T0\<close> of the beginning with the durations of the frames started
  since added to it one after the other; after \<open>N\<close> frames of the same duration \<open>D\<close> it
  is \<open>T0\<close> with \<open>D\<close> added \<open>N\<close> times.
\<close>

theorem scheduledTime_after_frames:
  "(step ScheduleTick s = Some s1 \<longrightarrow>
      started s1 = started s @ startedSince s s1
      \<and> map snd (startedSince s s1) = take (length (startedSince s s1)) (audioQueue s)
      \<and> map fst (startedSince s s1)
          = startTimes (currentTime s) (scheduledTime s) (map snd (startedSince s s1))
      \<and> scheduledTime s1
          = scheduleEnd (currentTime s) (scheduledTime s) (map snd (startedSince s s1)))
   \<and> (run evs s = Some s' \<and> scheduleKept evs s \<and> startsOnTime evs s \<longrightarrow>
      started s' = started s @ startedSince s s'
      \<and> scheduledTime s'
          = foldl addDouble (scheduledTime s) (map duration (map snd (startedSince s s')))
      \<and> ((\<forall>f \<in> set (map snd (startedSince s s')). length f = L) \<longrightarrow>
           scheduledTime s'
             = addTimes (length (startedSince s s')) (roundDouble (of_nat L / sampleRate))
                 (scheduledTime s)))"
proof -
  have pass: "step ScheduleTick s = Some s1 \<longrightarrow>
      started s1 = started s @ startedSince s s1
      \<and> map snd (startedSince s s1) = take (length (startedSince s s1)) (audioQueue s)
      \<and> map fst (startedSince s s1)
          = startTimes (currentTime s) (scheduledTime s) (map snd (startedSince s s1))
      \<and> scheduledTime s1
          = scheduleEnd (currentTime s) (scheduledTime s) (map snd (startedSince s s1))"
    using tick_startedSince[of s s1] by (rule impI)
  have runs: "run evs s = Some s' \<and> scheduleKept evs s \<and> startsOnTime evs s \<longrightarrow>
      started s' = started s @ startedSince s s'
      \<and> scheduledTime s'
          = foldl addDouble (scheduledTime s) (map duration (map snd (startedSince s s')))
      \<and> ((\<forall>f \<in> set (map snd (startedSince s s')). length f = L) \<longrightarrow>
           scheduledTime s'
             = addTimes (length (startedSince s s')) (roundDouble (of_nat L / sampleRate))
                 (scheduledTime s))"
  proof (rule impI)
    assume "run evs s = Some s' \<and> scheduleKept evs s \<and> startsOnTime evs s"
    then have "run evs s = Some s'" and "scheduleKept evs s" and "startsOnTime evs s"
      by simp_all
    then have rs: "started s' = started s @ startedSince s s'
         \<and> scheduledTime s'
             = foldl addDouble (scheduledTime s) (map duration (map snd (startedSince s s')))"
      by (rule run_schedule)
    have same: "scheduledTime s'
             = addTimes (length (startedSince s s')) (roundDouble (of_nat L / sampleRate))
                 (scheduledTime s)"
      if "\<forall>f \<in> set (map snd (startedSince s s')). length f = L"
    proof -
      have "map duration (map snd (startedSince s s'))
              = replicate (length (startedSince s s')) (roundDouble (of_nat L / sampleRate))"
        using that by (intro replicate_eqI) (auto simp: duration_def)
      with rs show ?thesis
        by (simp add: foldl_addDouble_replicate)
    qed
    from rs same show "started s' = started s @ startedSince s s'
      \<and> scheduledTime s'
          = foldl addDouble (scheduledTime s) (map duration (map snd (startedSince s s')))
      \<and> ((\<forall>f \<in> set (map snd (startedSince s s')). length f = L) \<longrightarrow>
           scheduledTime s'
             = addTimes (length (startedSince s s')) (roundDouble (of_nat L / sampleRate))
                 (scheduledTime s))"
      by blast
  qed
  from pass runs show ?thesis by (rule conjI)
qed

lemma doubles_late:
  "addDouble 0 (3 / 10) = roundDouble (3 / 10)"
  "0 \<le> roundDouble (3 / 10)"
  "0 \<le> roundDouble (1 / 10)"
  "roundDouble (3 / 10) \<le> addDouble (roundDouble (1 / 10)) (roundDouble (8 / 25))"
  "addDouble (roundDouble (1 / 10)) (roundDouble (8 / 25))
     < addDouble (roundDouble (3 / 10)) SCHEDULE_AHEAD_TIME"
  "max (addDouble (roundDouble (1 / 10)) (roundDouble (8 / 25))) (roundDouble (3 / 10))
     = addDouble (roundDouble (1 / 10)) (roundDouble (8 / 25))"
  "addDouble (roundDouble (1 / 10)) (roundDouble (8 / 25)) < addDouble 1 SCHEDULE_AHEAD_TIME"
  "max (addDouble (roundDouble (1 / 10)) (roundDouble (8 / 25))) 1 = 1"
  by code_simp+

theorem scheduledTime_after_frames_witness:
  "run [ScheduleTick, AddPCM16 (silence 15360), ClockAdvance (3 / 10), IntervalFires,
        ScheduleTick]
     \<lparr>audioQueue = [replicate 7680 0], isPlaying = True, processingBuffer = [],
     scheduledTime = roundDouble (1 / 10),
     isStreamComplete = False, checkInterval = False, endOfQueueAudioSource = None,
     currentTime = 0,
     started = [],
     onended = {}, endedSources = {}, scheduleCalls = 1, timeouts = 0,
     onCompleteCalls = 0\<rparr>
   = Some
     \<lparr>audioQueue = [], isPlaying = True, processingBuffer = [],
     scheduledTime = addDouble (addDouble (roundDouble (1 / 10)) (roundDouble (8 / 25))) (roundDouble (8 / 25)),
     isStreamComplete = False, checkInterval = True, endOfQueueAudioSource = Some 1,
     currentTime = roundDouble (3 / 10),
     started = [(roundDouble (1 / 10), replicate 7680 0),
                (addDouble (roundDouble (1 / 10)) (roundDouble (8 / 25)), replicate 7680 0)],
     onended = {1}, endedSources = {}, scheduleCalls = 0, timeouts = 0,
     onCompleteCalls = 0\<rparr>
   \<and> addDouble (addDouble (roundDouble (1 / 10)) (roundDouble (8 / 25))) (roundDouble (8 / 25))
       = addTimes 2 (roundDouble (8 / 25)) (roundDouble (1 / 10))"
proof -
  let ?s0 = "\<lparr>audioQueue = [replicate 7680 0], isPlaying = True, processingBuffer = [],
     scheduledTime = roundDouble (1 / 10),
     isStreamComplete = False, checkInterval = False, endOfQueueAudioSource = None,
     currentTime = 0,
     started = [],
     onended = {}, endedSources = {}, scheduleCalls = 1, timeouts = 0,
     onCompleteCalls = 0\<rparr>"
  let ?s1 = "\<lparr>audioQueue = [], isPlaying = True, processingBuffer = [],
     scheduledTime = addDouble (roundDouble (1 / 10)) (roundDouble (8 / 25)),
     isStreamComplete = False, checkInterval = True, endOfQueueAudioSource = Some 0,
     currentTime = 0,
     started = [(roundDouble (1 / 10), replicate 7680 0)],
     onended = {0}, endedSources = {}, scheduleCalls = 0, timeouts = 0,
     onCompleteCalls = 0\<rparr>"
  let ?s2 = "\<lparr>audioQueue = [replicate 7680 0], isPlaying = True, processingBuffer = [],
     scheduledTime = addDouble (roundDouble (1 / 10)) (roundDouble (8 / 25)),
     isStreamComplete = False, checkInterval = True, endOfQueueAudioSource = Some 0,
     currentTime = 0,
     started = [(roundDouble (1 / 10), replicate 7680 0)],
     onended = {0}, endedSources = {}, scheduleCalls = 0, timeouts = 0,
     onCompleteCalls = 0\<rparr>"
  let ?s3 = "\<lparr>audioQueue = [replicate 7680 0], isPlaying = True, processingBuffer = [],
     scheduledTime = addDouble (roundDouble (1 / 10)) (roundDouble (8 / 25)),
     isStreamComplete = False, checkInterval = True, endOfQueueAudioSource = Some 0,
     currentTime = roundDouble (3 / 10),
     started = [(roundDouble (1 / 10), replicate 7680 0)],
     onended = {0}, endedSources = {}, scheduleCalls = 0, timeouts = 0,
     onCompleteCalls = 0\<rparr>"
  let ?s4 = "\<lparr>audioQueue = [replicate 7680 0], isPlaying = True, processingBuffer = [],
     scheduledTime = addDouble (roundDouble (1 / 10)) (roundDouble (8 / 25)),
     isStreamComplete = False, checkInterval = True, endOfQueueAudioSource = Some 0,
     currentTime = roundDouble (3 / 10),
     started = [(roundDouble (1 / 10), replicate 7680 0)],
     onended = {0}, endedSources = {}, scheduleCalls = 1, timeouts = 0,
     onCompleteCalls = 0\<rparr>"
  let ?s5 = "\<lparr>audioQueue = [], isPlaying = True, processingBuffer = [],
     scheduledTime = addDouble (addDouble (roundDouble (1 / 10)) (roundDouble (8 / 25))) (roundDouble (8 / 25)),
     isStreamComplete = False, checkInterval = True, endOfQueueAudioSource = Some 1,
     currentTime = roundDouble (3 / 10),
     started = [(roundDouble (1 / 10), replicate 7680 0),
                (addDouble (roundDouble (1 / 10)) (roundDouble (8 / 25)), replicate 7680 0)],
     onended = {1}, endedSources = {}, scheduleCalls = 0, timeouts = 0,
     onCompleteCalls = 0\<rparr>"
  let ?evs = "[ScheduleTick, AddPCM16 (silence 15360), ClockAdvance (3 / 10), IntervalFires,
        ScheduleTick]"
  have 1: "step ScheduleTick ?s0 = Some ?s1"
    by (simp add: tickEval)
  have 2: "step (AddPCM16 (silence 15360)) ?s1 = Some ?s2"
    by (simp add: ingestEval)
  have 3: "step (ClockAdvance (3 / 10)) ?s2 = Some ?s3"
    by (simp add: doubles_late)
  have 4: "step IntervalFires ?s3 = Some ?s4"
    by (simp add: intervalCallback_def)
  have 5: "step ScheduleTick ?s4 = Some ?s5"
    by (simp add: tickEval doubles_late)
  have r: "run ?evs ?s0 = Some ?s5"
    by (simp only: run.simps 1 2 3 4 5 option.case)
  have k: "scheduleKept ?evs ?s0"
    by (simp only: scheduleKept.simps 1 2 3 4 5 option.case) simp
  have o: "startsOnTime ?evs ?s0"
    by (simp only: startsOnTime.simps 1 2 3 4 5 option.case)
       (simp add: startedSince_def doubles_late)
  have f: "\<forall>f \<in> set (map snd (startedSince ?s0 ?s5)). length f = 7680"
    by (simp add: startedSince_def)
  have n: "length (startedSince ?s0 ?s5) = 2"
    by (simp add: startedSince_def)
  have d: "roundDouble (of_nat 7680 / sampleRate) = roundDouble (8 / 25)"
    by (simp add: sampleRate_def)
  from scheduledTime_after_frames[of ?s0 ?s1 ?evs ?s5 7680] r k o f
  have "scheduledTime ?s5
          = addTimes (length (startedSince ?s0 ?s5)) (roundDouble (of_nat 7680 / sampleRate))
              (scheduledTime ?s0)"
    by blast
  then show ?thesis
    unfolding n d using r by simp
qed

text \<open>
  The claim as stated fails although the device clock only advances. The first frame
  (\<open>T0 = 0.1\<close>, \<open>D = 0.32\<close>) is started on time; the clock advances to 1 before the second
  frame arrives, and that frame is started at 1. After the two frames \<open>scheduledTime\<close>
  is \<open>1 + D\<close>, which is more than \<open>T0\<close> with \<open>D\<close> added twice and more than \<open>T0 + 2 * D\<close>.
\<close>

theorem scheduledTime_jumps_counterexample:
  "map_option scheduledTime (run [AddPCM16 (silence 15360)] initial)
     = Some (roundDouble (1 / 10))
   \<and> map_option started
       (run [AddPCM16 (silence 15360), ScheduleTick, ClockAdvance 1,
          AddPCM16 (silence 15360), IntervalFires, ScheduleTick] initial)
       = Some [(roundDouble (1 / 10), replicate 7680 0), (1, replicate 7680 0)]
   \<and> map_option scheduledTime
       (run [AddPCM16 (silence 15360), ScheduleTick, ClockAdvance 1,
          AddPCM16 (silence 15360), IntervalFires, ScheduleTick] initial)
       = Some (addDouble 1 (roundDouble (8 / 25)))
   \<and> duration (replicate 7680 0) = roundDouble (8 / 25)
   \<and> addTimes 2 (roundDouble (8 / 25)) (roundDouble (1 / 10)) < addDouble 1 (roundDouble (8 / 25))
   \<and> addDouble (roundDouble (1 / 10)) (roundDouble (2 * roundDouble (8 / 25)))
       < addDouble 1 (roundDouble (8 / 25))"
proof -
  let ?s1 = "\<lparr>audioQueue = [replicate 7680 0], isPlaying = True, processingBuffer = [],
     scheduledTime = roundDouble (1 / 10),
     isStreamComplete = False, checkInterval = False, endOfQueueAudioSource = None,
     currentTime = 0,
     started = [],
     onended = {}, endedSources = {}, scheduleCalls = 1, timeouts = 0,
     onCompleteCalls = 0\<rparr>"
  let ?s2 = "\<lparr>audioQueue = [], isPlaying = True, processingBuffer = [],
     scheduledTime = addDouble (roundDouble (1 / 10)) (roundDouble (8 / 25)),
     isStreamComplete = False, checkInterval = True, endOfQueueAudioSource = Some 0,
     currentTime = 0,
     started = [(roundDouble (1 / 10), replicate 7680 0)],
     onended = {0}, endedSources = {}, scheduleCalls = 0, timeouts = 0,
     onCompleteCalls = 0\<rparr>"
  let ?s3 = "\<lparr>audioQueue = [], isPlaying = True, processingBuffer = [],
     scheduledTime = addDouble (roundDouble (1 / 10)) (roundDouble (8 / 25)),
     isStreamComplete = False, checkInterval = True, endOfQueueAudioSource = Some 0,
     currentTime = 1,
     started = [(roundDouble (1 / 10), replicate 7680 0)],
     onended = {0}, endedSources = {}, scheduleCalls = 0, timeouts = 0,
     onCompleteCalls = 0\<rparr>"
  let ?s4 = "\<lparr>audioQueue = [replicate 7680 0], isPlaying = True, processingBuffer = [],
     scheduledTime = addDouble (roundDouble (1 / 10)) (roundDouble (8 / 25)),
     isStreamComplete = False, checkInterval = True, endOfQueueAudioSource = Some 0,
     currentTime = 1,
     started = [(roundDouble (1 / 10), replicate 7680 0)],
     onended = {0}, endedSources = {}, scheduleCalls = 0, timeouts = 0,
     onCompleteCalls = 0\<rparr>"
  let ?s5 = "\<lparr>audioQueue = [replicate 7680 0], isPlaying = True, processingBuffer = [],
     scheduledTime = addDouble (roundDouble (1 / 10)) (roundDouble (8 / 25)),
     isStreamComplete = False, checkInterval = True, endOfQueueAudioSource = Some 0,
     currentTime = 1,
     started = [(roundDouble (1 / 10), replicate 7680 0)],
     onended = {0}, endedSources = {}, scheduleCalls = 1, timeouts = 0,
     onCompleteCalls = 0\<rparr>"
  let ?s6 = "\<lparr>audioQueue = [], isPlaying = True, processingBuffer = [],
     scheduledTime = addDouble 1 (roundDouble (8 / 25)),
     isStreamComplete = False, checkInterval = True, endOfQueueAudioSource = Some 1,
     currentTime = 1,
     started = [(roundDouble (1 / 10), replicate 7680 0), (1, replicate 7680 0)],
     onended = {1}, endedSources = {}, scheduleCalls = 0, timeouts = 0,
     onCompleteCalls = 0\<rparr>"
  have 1: "step (AddPCM16 (silence 15360)) initial = Some ?s1"
    by (simp add: ingestEval initial_def)
  have 2: "step ScheduleTick ?s1 = Some ?s2"
    by (simp add: tickEval)
  have 3: "step (ClockAdvance 1) ?s2 = Some ?s3"
    by (simp add: doubles_lead)
  have 4: "step (AddPCM16 (silence 15360)) ?s3 = Some ?s4"
    by (simp add: ingestEval)
  have 5: "step IntervalFires ?s4 = Some ?s5"
    by (simp add: intervalCallback_def)
  have 6: "step ScheduleTick ?s5 = Some ?s6"
    by (simp add: tickEval doubles_late)
  have r1: "run [AddPCM16 (silence 15360)] initial = Some ?s1"
    by (simp only: run.simps 1 option.case)
  have r: "run [AddPCM16 (silence 15360), ScheduleTick, ClockAdvance 1,
          AddPCM16 (silence 15360), IntervalFires, ScheduleTick] initial = Some ?s6"
    by (simp only: run.simps 1 2 3 4 5 6 option.case)
  have a: "addTimes 2 (roundDouble (8 / 25)) (roundDouble (1 / 10)) < addDouble 1 (roundDouble (8 / 25))"
    by code_simp
  have b: "addDouble (roundDouble (1 / 10)) (roundDouble (2 * roundDouble (8 / 25)))
             < addDouble 1 (roundDouble (8 / 25))"
    by code_simp
  show ?thesis
    unfolding r r1 using a b by (simp add: duration_frame)
qed

section \<open>Capture pipeline: start, health check and restart\<close>

text \<open>
  Claim C7, as amended. \<open>start\<close> never consults the \<open>starting\<close> future: whenever media
  devices are available, also while an earlier \<open>start\<close> is in flight, it issues a new
  \<open>getUserMedia\<close> request, creates a new future different from the one in flight, stores
  it in \<open>starting\<close> and returns it.
\<close>

theorem start_begins_new_acquisition:
  assumes "mediaDevices r" and "starting r = Some inFlight" and "inFlight < promises r"
  shows "\<exists>r'. start r = Inr (promises r, r')
           \<and> promises r \<noteq> inFlight
           \<and> starting r' = Some (promises r)
           \<and> getUserMediaCalls r' = getUserMediaCalls r + 1"
  using assms by (simp add: start_def Let_def)


theorem start_begins_new_acquisition_witness:
  "start \<lparr>stream = None, audioContext = None, source = None, recording = False,
      recordingWorklet = None, vuWorklet = None, starting = Some 0,
      streamCheckInterval = False, mediaDevices = True, mediaStreams = [],
      getUserMediaCalls = 1, promises = 1, nodes = 0, emitted = []\<rparr>
   = Inr (1, \<lparr>stream = None, audioContext = None, source = None, recording = False,
      recordingWorklet = None, vuWorklet = None, starting = Some 1,
      streamCheckInterval = False, mediaDevices = True, mediaStreams = [],
      getUserMediaCalls = 2, promises = 2, nodes = 0, emitted = []\<rparr>)"
proof -
  let ?r = "\<lparr>stream = None, audioContext = None, source = None, recording = False,
      recordingWorklet = None, vuWorklet = None, starting = Some 0,
      streamCheckInterval = False, mediaDevices = True, mediaStreams = [],
      getUserMediaCalls = 1, promises = 1, nodes = 0, emitted = []\<rparr>"
  have m: "mediaDevices ?r" and s: "starting ?r = Some 0" and p: "0 < promises ?r"
    by simp_all
  from start_begins_new_acquisition[OF m s p] obtain r' where
    r': "start ?r = Inr (promises ?r, r')" by blast
  have "start ?r = Inr (1, \<lparr>stream = None, audioContext = None, source = None,
      recording = False, recordingWorklet = None, vuWorklet = None, starting = Some 1,
      streamCheckInterval = False, mediaDevices = True, mediaStreams = [],
      getUserMediaCalls = 2, promises = 2, nodes = 0, emitted = []\<rparr>)"
    by (simp add: start_def)
  with r' show ?thesis by simp
qed

text \<open>
  The claim as stated fails: on a fresh recorder, a second \<open>start\<close> made while the first
  is in flight returns a different future, two \<open>getUserMedia\<close> requests are outstanding,
  and when both resolve two hardware streams with live tracks are open, the first of
  which the recorder no longer references.
\<close>

theorem start_twice_counterexample:
  "start (newAudioRecorder True)
     = Inr (0, \<lparr>stream = None, audioContext = None, source = None, recording = False,
        recordingWorklet = None, vuWorklet = None, starting = Some 0,
        streamCheckInterval = False, mediaDevices = True, mediaStreams = [],
        getUserMediaCalls = 1, promises = 1, nodes = 0, emitted = []\<rparr>)
   \<and> start \<lparr>stream = None, audioContext = None, source = None, recording = False,
        recordingWorklet = None, vuWorklet = None, starting = Some 0,
        streamCheckInterval = False, mediaDevices = True, mediaStreams = [],
        getUserMediaCalls = 1, promises = 1, nodes = 0, emitted = []\<rparr>
     = Inr (1, \<lparr>stream = None, audioContext = None, source = None, recording = False,
        recordingWorklet = None, vuWorklet = None, starting = Some 1,
        streamCheckInterval = False, mediaDevices = True, mediaStreams = [],
        getUserMediaCalls = 2, promises = 2, nodes = 0, emitted = []\<rparr>)
   \<and> startGotStream [liveTrack] (startGotStream [liveTrack]
        \<lparr>stream = None, audioContext = None, source = None, recording = False,
        recordingWorklet = None, vuWorklet = None, starting = Some 1,
        streamCheckInterval = False, mediaDevices = True, mediaStreams = [],
        getUserMediaCalls = 2, promises = 2, nodes = 0, emitted = []\<rparr>)
     = \<lparr>stream = Some 1, audioContext = None, source = None, recording = False,
        recordingWorklet = None, vuWorklet = None, starting = Some 1,
        streamCheckInterval = False, mediaDevices = True,
        mediaStreams = [[liveTrack], [liveTrack]],
        getUserMediaCalls = 2, promises = 2, nodes = 0, emitted = []\<rparr>"
  by (simp add: start_def newAudioRecorder_def startGotStream_def)

lemma healthLoop_healthy:
  "\<forall>t \<in> set tracks. \<not> invalidState t \<Longrightarrow>
   healthLoop g tracks (inspected, n, r) = Inr (inspected @ tracks, n, r)"
  by (induction tracks arbitrary: inspected) simp_all

lemma healthLoop_first_invalid:
  assumes "\<forall>t \<in> set healthy. \<not> invalidState t" and "invalidState bad"
  shows "healthLoop g (healthy @ bad # rest) (inspected, n, r)
           = (case restartStream g r of
                Inl error \<Rightarrow> Inl error
              | Inr r' \<Rightarrow> Inr (inspected @ healthy @ [bad], n + 1, r'))"
  using assms by (induction healthy arbitrary: inspected) (simp_all cong: sum.case_cong)

lemma restartStream_returns: "\<exists>r'. restartStream g r = Inr r'"
  by (simp add: restartStream_def restartBody_def Let_def split: sum.splits)

text \<open>
  Claim C8. On a health-check tick with a current hardware stream, the tracks are
  inspected in order; at the first track that is disabled, muted or not live,
  \<open>restartStream\<close> is called exactly once and no further track is inspected; if every
  track is healthy, all are inspected and no restart happens.
\<close>

theorem checkStreamHealth_one_restart:
  assumes "stream r = Some h"
  shows "((\<forall>t \<in> set (tracksOf r h). \<not> invalidState t) \<longrightarrow>
            checkStreamHealth g r = Inr (tracksOf r h, 0, r))
       \<and> (tracksOf r h = healthy @ bad # rest \<and> (\<forall>t \<in> set healthy. \<not> invalidState t)
            \<and> invalidState bad \<longrightarrow>
            (\<exists>r'. restartStream g r = Inr r'
                  \<and> checkStreamHealth g r = Inr (healthy @ [bad], 1, r')))"
proof (intro conjI impI)
  assume "\<forall>t \<in> set (tracksOf r h). \<not> invalidState t"
  then show "checkStreamHealth g r = Inr (tracksOf r h, 0, r)"
    using assms by (simp add: checkStreamHealth_def healthLoop_healthy)
next
  assume "tracksOf r h = healthy @ bad # rest \<and> (\<forall>t \<in> set healthy. \<not> invalidState t)
            \<and> invalidState bad"
  then have t: "tracksOf r h = healthy @ bad # rest"
    and hl: "\<forall>t \<in> set healthy. \<not> invalidState t" and b: "invalidState bad"
    by simp_all
  obtain r' where r': "restartStream g r = Inr r'"
    using restartStream_returns by blast
  have "checkStreamHealth g r = Inr (healthy @ [bad], 1, r')"
    using assms t healthLoop_first_invalid[OF hl b, of g rest "[]" 0 r] r'
    by (simp add: checkStreamHealth_def)
  with r' show "\<exists>r'. restartStream g r = Inr r'
                 \<and> checkStreamHealth g r = Inr (healthy @ [bad], 1, r')"
    by blast
qed

theorem checkStreamHealth_one_restart_witness:
  "checkStreamHealth (Inr [liveTrack]) (recordingExample [liveTrack, mutedTrack, endedTrack])
     = Inr ([liveTrack, mutedTrack], 1,
         \<lparr>stream = Some 1, audioContext = Some 0, source = Some 4, recording = True,
          recordingWorklet = Some 2, vuWorklet = Some 3, starting = None,
          streamCheckInterval = True, mediaDevices = True,
          mediaStreams = [[endedTrack, mutedTrack\<lparr>readyState := Some Ended\<rparr>, endedTrack],
                          [liveTrack]],
          getUserMediaCalls = 2, promises = 1, nodes = 5, emitted = []\<rparr>)
   \<and> checkStreamHealth (Inr [liveTrack]) (recordingExample [liveTrack, liveTrack])
     = Inr ([liveTrack, liveTrack], 0, recordingExample [liveTrack, liveTrack])"
proof -
  let ?g = "Inr [liveTrack] :: string + mediaStreamTrack list"
  let ?r = "recordingExample [liveTrack, mutedTrack, endedTrack]"
  let ?h = "recordingExample [liveTrack, liveTrack]"
  let ?r' = "\<lparr>stream = Some 1, audioContext = Some 0, source = Some 4, recording = True,
          recordingWorklet = Some 2, vuWorklet = Some 3, starting = None,
          streamCheckInterval = True, mediaDevices = True,
          mediaStreams = [[endedTrack, mutedTrack\<lparr>readyState := Some Ended\<rparr>, endedTrack],
                          [liveTrack]],
          getUserMediaCalls = 2, promises = 1, nodes = 5, emitted = []\<rparr>"
  have sr: "stream ?r = Some 0" and sh: "stream ?h = Some 0"
    by (simp_all add: recordingExample_def)
  have tr: "tracksOf ?r 0 = [liveTrack] @ mutedTrack # [endedTrack]"
    and th: "tracksOf ?h 0 = [liveTrack, liveTrack]"
    by (simp_all add: tracksOf_def recordingExample_def)
  have ok: "\<forall>t \<in> set [liveTrack]. \<not> invalidState t"
    and bad: "invalidState mutedTrack"
    and okl: "\<forall>t \<in> set [liveTrack, liveTrack]. \<not> invalidState t"
    by (simp_all add: invalidState_def liveTrack_def mutedTrack_def)
  have okh: "\<forall>t \<in> set (tracksOf ?h 0). \<not> invalidState t"
    unfolding th by (rule okl)
  have rs: "restartStream ?g ?r = Inr ?r'"
    by (simp add: restartStream_def restartBody_def restartRequest_def restartReconnect_def
          stopTracks_def recordingExample_def liveTrack_def mutedTrack_def endedTrack_def)
  from checkStreamHealth_one_restart[OF sr, of ?g "[liveTrack]" mutedTrack "[endedTrack]"]
       tr ok bad
  obtain r' where "restartStream ?g ?r = Inr r'"
    and c: "checkStreamHealth ?g ?r = Inr ([liveTrack] @ [mutedTrack], 1, r')"
    by blast
  with rs have 1: "checkStreamHealth ?g ?r = Inr ([liveTrack, mutedTrack], 1, ?r')"
    by simp
  from checkStreamHealth_one_restart[OF sh, of ?g] okh
  have 2: "checkStreamHealth ?g ?h = Inr ([liveTrack, liveTrack], 0, ?h)"
    by (simp add: th)
  from 1 2 show ?thesis by simp
qed

text \<open>
  Claim C9. When \<open>restartStream\<close> fails to acquire a fresh microphone stream, the call
  returns normally, exactly one \<open>error\<close> notification carrying the failure is emitted,
  and the recording flag, the recording and metering units, the source node, the device
  context, the stream handle, the \<open>starting\<close> future and the health-check timer are all
  unchanged.
\<close>

theorem restartStream_failure_reported:
  "\<exists>r'. restartStream (Inl error) r = Inr r'
        \<and> emitted r' = emitted r @ [(''error'', error)]
        \<and> recording r' = recording r
        \<and> recordingWorklet r' = recordingWorklet r
        \<and> vuWorklet r' = vuWorklet r
        \<and> source r' = source r
        \<and> audioContext r' = audioContext r
        \<and> stream r' = stream r
        \<and> starting r' = starting r
        \<and> streamCheckInterval r' = streamCheckInterval r"
  by (simp add: restartStream_def restartBody_def restartRequest_def stopTracks_def Let_def
           split: option.splits)

theorem restartStream_failure_reported_witness:
  "(case restartStream (Inl ''NotAllowedError'') (recordingExample [liveTrack]) of
      Inl exception \<Rightarrow> False
    | Inr r' \<Rightarrow> recording r' \<and> emitted r' = [(''error'', ''NotAllowedError'')]
                \<and> recordingWorklet r' = Some 2 \<and> vuWorklet r' = Some 3)"
proof -
  from restartStream_failure_reported[of "''NotAllowedError''" "recordingExample [liveTrack]"]
  obtain r' where
    "restartStream (Inl ''NotAllowedError'') (recordingExample [liveTrack]) = Inr r'"
    "emitted r' = emitted (recordingExample [liveTrack]) @ [(''error'', ''NotAllowedError'')]"
    "recording r' = recording (recordingExample [liveTrack])"
    "recordingWorklet r' = recordingWorklet (recordingExample [liveTrack])"
    "vuWorklet r' = vuWorklet (recordingExample [liveTrack])"
    by blast
  then show ?thesis by (simp add: recordingExample_def)
qed

end
